theory Spec2Isabelle
  imports Main "HOL-Library.Word"
begin

section \<open>Identifiers, objects and task payloads\<close>

text \<open>
  The core-worker sources \<^verbatim>\<open>direct_task_transport.cc\<close> and \<^verbatim>\<open>memory_store.cc\<close> use a
  few types whose declarations live in headers outside the verified sources. They are
  modelled here with exactly the operations the two files call.
\<close>

datatype TaskTransportType = RAYLET | DIRECT

type_synonym TaskID = nat

text \<open>
  Modelled from the spec: \<^verbatim>\<open>ObjectID\<close> (declared in \<^verbatim>\<open>ray/common/id.h\<close>). An opaque
  identifier in which one bit selects the direct-call or the raylet-transport subspace;
  the remaining bits are the creating task and an index. \<^verbatim>\<open>WithTransportType\<close> rewrites
  the transport bit and keeps every other bit; \<^verbatim>\<open>Binary\<close>/\<^verbatim>\<open>FromBinary\<close> are
  inverse to each other and are left implicit.
\<close>

datatype ObjectID = ObjectID (transport_type: TaskTransportType) (oid_task: TaskID) (oid_index: nat)

definition IsDirectCallType :: "ObjectID \<Rightarrow> bool" where
  "IsDirectCallType object_id = (transport_type object_id = DIRECT)"

definition WithTransportType :: "TaskTransportType \<Rightarrow> ObjectID \<Rightarrow> ObjectID" where
  "WithTransportType t object_id = ObjectID t (oid_task object_id) (oid_index object_id)"

definition ForTaskReturn :: "TaskID \<Rightarrow> nat \<Rightarrow> TaskTransportType \<Rightarrow> ObjectID" where
  "ForTaskReturn task_id index t = ObjectID t task_id index"

text \<open>The enumeration \<^verbatim>\<open>ErrorType\<close> of \<^verbatim>\<open>gcs.proto\<close>, with its wire numbers.\<close>

datatype ErrorType =
  WORKER_DIED | ACTOR_DIED | OBJECT_UNRECONSTRUCTABLE | TASK_EXECUTION_EXCEPTION | OBJECT_IN_PLASMA

fun ErrorType_number :: "ErrorType \<Rightarrow> nat" where
  "ErrorType_number WORKER_DIED = 0"
| "ErrorType_number ACTOR_DIED = 1"
| "ErrorType_number OBJECT_UNRECONSTRUCTABLE = 2"
| "ErrorType_number TASK_EXECUTION_EXCEPTION = 3"
| "ErrorType_number OBJECT_IN_PLASMA = 4"

type_synonym Buffer = "8 word list"

text \<open>
  Modelled from the spec: the metadata tag of a synthetic object (the decimal text of the
  error number, one ASCII digit for the five values of the enumeration).
\<close>

definition error_metadata :: "ErrorType \<Rightarrow> Buffer" where
  "error_metadata e = [of_nat (48 + ErrorType_number e)]"

text \<open>
  Modelled from the spec: \<^verbatim>\<open>RayObject\<close> (declared in \<^verbatim>\<open>ray/common/ray_object.h\<close>). An
  immutable pair of optional byte buffers. The flag \<^verbatim>\<open>in_plasma_error\<close> is carried by
  the metadata tag \<^verbatim>\<open>OBJECT_IN_PLASMA\<close>, so that the copy that \<^verbatim>\<open>Put\<close> builds from the
  data and the metadata of its argument has the flag of its argument.
\<close>

record RayObject =
  data :: "Buffer option"
  metadata :: "Buffer option"

definition HasData :: "RayObject \<Rightarrow> bool" where
  "HasData object = (data object \<noteq> None)"

definition HasMetadata :: "RayObject \<Rightarrow> bool" where
  "HasMetadata object = (metadata object \<noteq> None)"

definition IsInPlasmaError :: "RayObject \<Rightarrow> bool" where
  "IsInPlasmaError object = (metadata object = Some (error_metadata OBJECT_IN_PLASMA))"

text \<open>The constructor call \<^verbatim>\<open>RayObject(data, metadata, copy_data)\<close>.\<close>

definition RayObject_new :: "Buffer option \<Rightarrow> Buffer option \<Rightarrow> bool \<Rightarrow> RayObject" where
  "RayObject_new d m copy_data = \<lparr>data = d, metadata = m\<rparr>"

text \<open>
  The protobuf message of a task: ordered argument slots, each with a list of referenced
  object ids and inline byte fields (empty by default), the task id and the number of
  return values.
\<close>

record TaskArg =
  arg_object_ids :: "ObjectID list"
  arg_data :: Buffer
  arg_metadata :: Buffer

record TaskSpecification =
  task_id :: TaskID
  num_returns :: nat
  args :: "TaskArg list"

type_synonym WorkerAddress = "string \<times> int"

section \<open>Statuses, aborts and observable effects\<close>

datatype Status = OK | ObjectExists | TimedOut | IOError

definition ok :: "Status \<Rightarrow> bool" where
  "ok st = (st = OK)"

text \<open>
  A failed \<^verbatim>\<open>RAY_CHECK\<close> terminates the process. Every operation that contains one
  returns a sum whose left side names the check that failed. The left side
  \<open>Deadlock_mu\<close> stands for a thread that never returns because it waits for the
  submitter's mutex \<^verbatim>\<open>mu_\<close> while it holds that mutex itself (the mutex is not
  reentrant).
\<close>

datatype Abort =
    Check_IsDirectCallType
  | Check_store_in_plasma
  | Check_count
  | Check_num_objects
  | Check_timeout
  | Check_found
  | Check_ReturnWorker
  | Check_RequestWorkerLease
  | Null_client
  | Deadlock_mu

type_synonym request_ref = nat
type_synonym task_state_ref = nat

text \<open>
  A callback handed to \<^verbatim>\<open>GetAsync\<close>: the closure that
  \<^verbatim>\<open>LocalDependencyResolver::ResolveDependencies\<close> builds, which captures the state of
  its task (a reference, since the callbacks of one task share the state) and the id it
  waits for, or a callback of another caller.
\<close>

datatype Callback = ResolverCallback task_state_ref ObjectID | OtherCallback nat

text \<open>
  Calls that leave the component are recorded in order: user callbacks handed to
  \<^verbatim>\<open>GetAsync\<close> (run by \<^verbatim>\<open>Put\<close> after it released the lock), the plasma callback,
  \<^verbatim>\<open>GetRequest::Set\<close> on a shared request, the two lease-client calls and the RPC of
  the worker stub.
\<close>

datatype Effect =
    CallbackRun Callback RayObject
  | StoreInPlasma RayObject ObjectID
  | SetCalled request_ref ObjectID RayObject
  | RequestWorkerLease TaskSpecification
  | ReturnWorker int
  | PushNormalTaskRpc WorkerAddress TaskSpecification

section \<open>The in-memory store\<close>

subsection \<open>GetRequest\<close>

text \<open>
  \<^verbatim>\<open>object_ids_\<close> is a hash set, kept as a duplicate-free list; \<^verbatim>\<open>objects_\<close> is a hash
  map whose size is read, kept as an association list with at most one pair per key.
\<close>

record GetRequest =
  gr_object_ids :: "ObjectID list"
  gr_objects :: "(ObjectID \<times> RayObject) list"
  gr_num_objects :: nat
  gr_remove_after_get :: bool
  gr_is_ready :: bool

definition emplace :: "'k \<Rightarrow> 'v \<Rightarrow> ('k \<times> 'v) list \<Rightarrow> ('k \<times> 'v) list" where
  "emplace k v m = (if k \<in> fst ` set m then m else m @ [(k, v)])"

text \<open>
  The constructor, with its check \<^verbatim>\<open>num_objects_ <= object_ids_.size()\<close>.
\<close>

definition GetRequest_new :: "ObjectID list \<Rightarrow> nat \<Rightarrow> bool \<Rightarrow> Abort + GetRequest" where
  "GetRequest_new ids num_objects remove_after_get =
     (if num_objects \<le> length ids
      then Inr \<lparr>gr_object_ids = ids, gr_objects = [], gr_num_objects = num_objects,
                gr_remove_after_get = remove_after_get, gr_is_ready = False\<rparr>
      else Inl Check_num_objects)"

definition GetRequest_Set :: "ObjectID \<Rightarrow> RayObject \<Rightarrow> GetRequest \<Rightarrow> GetRequest" where
  "GetRequest_Set object_id object g =
     (if gr_is_ready g then g
      else
        let g1 = g\<lparr>gr_objects := emplace object_id object (gr_objects g)\<rparr>
        in if length (gr_objects g1) = gr_num_objects g1 then g1\<lparr>gr_is_ready := True\<rparr> else g1)"

definition GetRequest_Get :: "ObjectID \<Rightarrow> GetRequest \<Rightarrow> RayObject option" where
  "GetRequest_Get object_id g = map_of (gr_objects g) object_id"

definition ShouldRemoveObjects :: "GetRequest \<Rightarrow> bool" where
  "ShouldRemoveObjects g = gr_remove_after_get g"

text \<open>
  \<^verbatim>\<open>Wait(timeout_ms)\<close> seen from the thread that calls it: \<open>None\<close> while it stays blocked,
  \<open>Some ready\<close> when it returns. With \<open>timeout_ms = -1\<close> it returns only once the
  request is ready; otherwise it returns \<open>False\<close> when the wait has timed out
  (\<open>elapsed\<close>) before the request became ready.
\<close>

definition GetRequest_Wait :: "int \<Rightarrow> bool \<Rightarrow> GetRequest \<Rightarrow> Abort + bool option" where
  "GetRequest_Wait timeout_ms elapsed g =
     (if \<not> (timeout_ms \<ge> 0 \<or> timeout_ms = -1) then Inl Check_timeout
      else if timeout_ms = -1 then (if gr_is_ready g then Inr (Some True) else Inr None)
      else if gr_is_ready g then Inr (Some True)
      else if elapsed then Inr (Some False)
      else Inr None)"

subsection \<open>CoreWorkerMemoryStore\<close>

text \<open>
  The members of the store. A \<^verbatim>\<open>GetRequest\<close> is shared between the reader blocked in
  \<^verbatim>\<open>Get\<close> and every waiter list that names it, so requests live in a heap and the
  lists hold references; \<open>next_ref\<close> is the address that the next
  \<^verbatim>\<open>make_shared\<close> returns. The plasma callback is absent (\<open>None\<close>) or present;
  its calls are recorded as effects.
\<close>

record CoreWorkerMemoryStore =
  store_in_plasma :: "unit option"
  objects :: "ObjectID \<rightharpoonup> RayObject"
  object_async_get_requests :: "ObjectID \<rightharpoonup> Callback list"
  object_get_requests :: "ObjectID \<rightharpoonup> request_ref list"
  promoted_to_plasma :: "ObjectID set"
  request_heap :: "request_ref \<rightharpoonup> GetRequest"
  next_ref :: request_ref

definition CoreWorkerMemoryStore_new :: "unit option \<Rightarrow> CoreWorkerMemoryStore" where
  "CoreWorkerMemoryStore_new sip =
     \<lparr>store_in_plasma = sip, objects = Map.empty, object_async_get_requests = Map.empty,
      object_get_requests = Map.empty, promoted_to_plasma = {}, request_heap = Map.empty,
      next_ref = 0\<rparr>"

definition GetAsync ::
  "ObjectID \<Rightarrow> Callback \<Rightarrow> CoreWorkerMemoryStore \<Rightarrow> Effect list \<times> CoreWorkerMemoryStore" where
  "GetAsync object_id callback s =
     (case objects s object_id of
        Some ptr \<Rightarrow> ([CallbackRun callback ptr], s)
      | None \<Rightarrow>
          ([], s\<lparr>object_async_get_requests :=
                   (object_async_get_requests s)(object_id \<mapsto>
                      (case object_async_get_requests s object_id of
                         None \<Rightarrow> [] | Some cbs \<Rightarrow> cbs) @ [callback])\<rparr>))"

definition GetOrPromoteToPlasma ::
  "ObjectID \<Rightarrow> CoreWorkerMemoryStore \<Rightarrow> Abort + (RayObject option \<times> CoreWorkerMemoryStore)" where
  "GetOrPromoteToPlasma object_id s =
     (case objects s object_id of
        Some obj \<Rightarrow> (if IsInPlasmaError obj then Inr (None, s) else Inr (Some obj, s))
      | None \<Rightarrow>
          (if store_in_plasma s = None then Inl Check_store_in_plasma
           else Inr (None, s\<lparr>promoted_to_plasma := insert object_id (promoted_to_plasma s)\<rparr>)))"

text \<open>
  The loop of \<^verbatim>\<open>Put\<close> over the requests registered under the id: each one is handed
  the entry, and one request that removes after get keeps the entry out of the store.
  The triple is \<open>should_add_entry\<close>, the \<^verbatim>\<open>Set\<close> calls made so far and the heap. A
  registered reference keeps its request alive, so a reference without a request does
  not occur; the loop passes over it.
\<close>

fun Put_notify ::
  "ObjectID \<Rightarrow> RayObject \<Rightarrow> request_ref list \<Rightarrow>
   bool \<times> Effect list \<times> (request_ref \<rightharpoonup> GetRequest) \<Rightarrow>
   bool \<times> Effect list \<times> (request_ref \<rightharpoonup> GetRequest)" where
  "Put_notify object_id object_entry [] acc = acc"
| "Put_notify object_id object_entry (r # get_requests) (should_add_entry, evs, heap) =
     (case heap r of
        None \<Rightarrow> Put_notify object_id object_entry get_requests (should_add_entry, evs, heap)
      | Some g \<Rightarrow>
          Put_notify object_id object_entry get_requests
            (if ShouldRemoveObjects (GetRequest_Set object_id object_entry g) then False
             else should_add_entry,
             evs @ [SetCalled r object_id object_entry],
             heap(r \<mapsto> GetRequest_Set object_id object_entry g)))"

definition Put ::
  "ObjectID \<Rightarrow> RayObject \<Rightarrow> CoreWorkerMemoryStore \<Rightarrow>
   Abort + (Status \<times> Effect list \<times> CoreWorkerMemoryStore)" where
  "Put object_id object s =
     (if \<not> IsDirectCallType object_id then Inl Check_IsDirectCallType
      else
        let object_entry = RayObject_new (data object) (metadata object) True in
        case objects s object_id of
          Some _ \<Rightarrow> Inr (ObjectExists, [], s)
        | None \<Rightarrow>
            let async_callbacks =
                  (case object_async_get_requests s object_id of None \<Rightarrow> [] | Some cbs \<Rightarrow> cbs);
                s1 = s\<lparr>object_async_get_requests := (object_async_get_requests s)(object_id := None)\<rparr>
            in
            if object_id \<in> promoted_to_plasma s1 \<and> store_in_plasma s1 = None
            then Inl Check_store_in_plasma
            else
              let plasma_calls =
                    (if object_id \<in> promoted_to_plasma s1
                     then [StoreInPlasma object (WithTransportType RAYLET object_id)] else []);
                  s2 = s1\<lparr>promoted_to_plasma := promoted_to_plasma s1 - {object_id}\<rparr>;
                  (should_add_entry, set_calls, heap) =
                    (case object_get_requests s2 object_id of
                       None \<Rightarrow> (True, [], request_heap s2)
                     | Some get_requests \<Rightarrow>
                         Put_notify object_id object_entry get_requests
                           (True, [], request_heap s2));
                  s3 = s2\<lparr>request_heap := heap\<rparr>;
                  s4 = (if should_add_entry
                        then s3\<lparr>objects := (objects s3)(object_id \<mapsto> object_entry)\<rparr> else s3)
              in Inr (OK, plasma_calls @ set_calls @
                          map (\<lambda>cb. CallbackRun cb object_entry) async_callbacks, s4))"

fun Delete :: "ObjectID list \<Rightarrow> CoreWorkerMemoryStore \<Rightarrow> CoreWorkerMemoryStore" where
  "Delete [] s = s"
| "Delete (object_id # object_ids) s =
     Delete object_ids (s\<lparr>objects := (objects s)(object_id := None)\<rparr>)"

definition Contains :: "ObjectID \<Rightarrow> CoreWorkerMemoryStore \<Rightarrow> bool" where
  "Contains object_id s =
     (case objects s object_id of None \<Rightarrow> False | Some obj \<Rightarrow> \<not> IsInPlasmaError obj)"

subsection \<open>Get\<close>

text \<open>
  \<^verbatim>\<open>results->resize(n, nullptr)\<close>: a longer vector is cut, a shorter one is filled up with
  null pointers, and the entries that were there stay.
\<close>

definition resize :: "'a option list \<Rightarrow> nat \<Rightarrow> 'a option list" where
  "resize xs n = take n xs @ replicate (n - length xs) None"

text \<open>
  The local variables of the first loop of \<^verbatim>\<open>Get\<close>. The two hash sets are kept as
  duplicate-free lists; what is done with them later does not depend on their order.
\<close>

record ScanState =
  results :: "RayObject option list"
  count :: int
  remaining_ids :: "ObjectID list"
  ids_to_remove :: "ObjectID list"

text \<open>
  The loop \<^verbatim>\<open>for (i = 0; i < object_ids.size() && count < num_objects; i++)\<close>. The list
  argument is the part of \<^verbatim>\<open>object_ids\<close> from position \<open>i\<close> on.
\<close>

fun Get_scan ::
  "(ObjectID \<rightharpoonup> RayObject) \<Rightarrow> bool \<Rightarrow> int \<Rightarrow> ObjectID list \<Rightarrow> nat \<Rightarrow> ScanState \<Rightarrow> ScanState" where
  "Get_scan objs remove_after_get num_objects [] i st = st"
| "Get_scan objs remove_after_get num_objects (object_id # rest) i st =
     (if count st < num_objects then
        (case objs object_id of
           Some obj \<Rightarrow>
             Get_scan objs remove_after_get num_objects rest (Suc i)
               (st\<lparr>results := (results st)[i := Some obj],
                   ids_to_remove := (if remove_after_get
                                     then List.insert object_id (ids_to_remove st)
                                     else ids_to_remove st),
                   count := count st + 1\<rparr>)
         | None \<Rightarrow>
             Get_scan objs remove_after_get num_objects rest (Suc i)
               (st\<lparr>remaining_ids := List.insert object_id (remaining_ids st)\<rparr>))
      else st)"

fun erase_all :: "ObjectID list \<Rightarrow> (ObjectID \<rightharpoonup> 'v) \<Rightarrow> (ObjectID \<rightharpoonup> 'v)" where
  "erase_all [] m = m"
| "erase_all (object_id # ids) m = erase_all ids (m(object_id := None))"

text \<open>\<^verbatim>\<open>object_get_requests_[object_id].push_back(get_request)\<close> for every awaited id.\<close>

fun register_request ::
  "request_ref \<Rightarrow> ObjectID list \<Rightarrow> (ObjectID \<rightharpoonup> request_ref list) \<Rightarrow>
   (ObjectID \<rightharpoonup> request_ref list)" where
  "register_request r [] m = m"
| "register_request r (object_id # ids) m =
     register_request r ids
       (m(object_id \<mapsto> (case m object_id of None \<Rightarrow> [] | Some rs \<Rightarrow> rs) @ [r]))"

text \<open>
  What the calling thread holds when the first critical section of \<^verbatim>\<open>Get\<close> ends: either
  the call has returned, or a request is registered and the thread goes on to wait.
\<close>

datatype GetProgress =
    Returned Status "RayObject option list"
  | Waiting request_ref "RayObject option list"

text \<open>
  The first critical section. \<open>results0\<close> is the vector that the caller passes in.
  \<^verbatim>\<open>required_objects\<close> is computed in \<^verbatim>\<open>size_t\<close>, that is modulo \<open>2 ^ 64\<close>.
\<close>

definition Get_begin ::
  "ObjectID list \<Rightarrow> int \<Rightarrow> bool \<Rightarrow> RayObject option list \<Rightarrow> CoreWorkerMemoryStore \<Rightarrow>
   Abort + (GetProgress \<times> CoreWorkerMemoryStore)" where
  "Get_begin object_ids num_objects remove_after_get results0 s =
     (let st = Get_scan (objects s) remove_after_get num_objects object_ids 0
                 \<lparr>results = resize results0 (length object_ids), count = 0,
                  remaining_ids = [], ids_to_remove = []\<rparr>
      in
      if \<not> count st \<le> num_objects then Inl Check_count
      else
        let s1 = s\<lparr>objects := erase_all (ids_to_remove st) (objects s)\<rparr> in
        if remaining_ids st = [] \<or> count st \<ge> num_objects then Inr (Returned OK (results st), s1)
        else
          let required_objects =
                nat ((num_objects - (int (length object_ids) - int (length (remaining_ids st))))
                       mod 2 ^ 64)
          in
          case GetRequest_new (remaining_ids st) required_objects remove_after_get of
            Inl a \<Rightarrow> Inl a
          | Inr get_request \<Rightarrow>
              Inr (Waiting (next_ref s1) (results st),
                   s1\<lparr>request_heap := (request_heap s1)(next_ref s1 \<mapsto> get_request),
                      next_ref := Suc (next_ref s1),
                      object_get_requests :=
                        register_request (next_ref s1) (gr_object_ids get_request)
                          (object_get_requests s1)\<rparr>))"

text \<open>
  The second critical section, entered when \<^verbatim>\<open>Wait\<close> has returned: the positions that
  are still null are filled from the request, and the request is taken out of the
  waiter lists of its ids (an emptied list is erased).
\<close>

fun Get_populate ::
  "GetRequest \<Rightarrow> ObjectID list \<Rightarrow> RayObject option list \<Rightarrow> RayObject option list" where
  "Get_populate g (object_id # ids) (r # rs) =
     (if r = None then GetRequest_Get object_id g else r) # Get_populate g ids rs"
| "Get_populate g ids rs = rs"

fun deregister_request ::
  "request_ref \<Rightarrow> ObjectID list \<Rightarrow> (ObjectID \<rightharpoonup> request_ref list) \<Rightarrow>
   (ObjectID \<rightharpoonup> request_ref list)" where
  "deregister_request r [] m = m"
| "deregister_request r (object_id # ids) m =
     deregister_request r ids
       (case m object_id of
          None \<Rightarrow> m
        | Some get_requests \<Rightarrow>
            (if r \<in> set get_requests
             then (if remove1 r get_requests = [] then m(object_id := None)
                   else m(object_id \<mapsto> remove1 r get_requests))
             else m))"

definition Get_finish ::
  "request_ref \<Rightarrow> ObjectID list \<Rightarrow> RayObject option list \<Rightarrow> CoreWorkerMemoryStore \<Rightarrow>
   RayObject option list \<times> CoreWorkerMemoryStore" where
  "Get_finish r object_ids res s =
     (case request_heap s r of
        None \<Rightarrow> (res, s)
      | Some get_request \<Rightarrow>
          (Get_populate get_request object_ids res,
           s\<lparr>object_get_requests :=
               deregister_request r (gr_object_ids get_request) (object_get_requests s)\<rparr>))"

text \<open>
  A whole call of \<^verbatim>\<open>Get\<close> during which no other thread enters the store: it returns
  from the first critical section, or it registers its request and then either waits
  for ever (\<open>timeout_ms = -1\<close>) or times out.
\<close>

datatype GetOutcome =
    Get_returns Status "RayObject option list"
  | Get_blocks

definition Get ::
  "ObjectID list \<Rightarrow> int \<Rightarrow> int \<Rightarrow> bool \<Rightarrow> RayObject option list \<Rightarrow> CoreWorkerMemoryStore \<Rightarrow>
   Abort + (GetOutcome \<times> CoreWorkerMemoryStore)" where
  "Get object_ids num_objects timeout_ms remove_after_get results0 s =
     (case Get_begin object_ids num_objects remove_after_get results0 s of
        Inl a \<Rightarrow> Inl a
      | Inr (Returned st res, s1) \<Rightarrow> Inr (Get_returns st res, s1)
      | Inr (Waiting r res, s1) \<Rightarrow>
          (case request_heap s1 r of
             None \<Rightarrow> Inr (Get_blocks, s1)
           | Some get_request \<Rightarrow>
               (case GetRequest_Wait timeout_ms True get_request of
                  Inl a \<Rightarrow> Inl a
                | Inr None \<Rightarrow> Inr (Get_blocks, s1)
                | Inr (Some ready) \<Rightarrow>
                    (let (res', s2) = Get_finish r object_ids res s1
                     in Inr (Get_returns (if ready then OK else TimedOut) res', s2)))))"

section \<open>The dependency resolver: inlining a resolved value\<close>

text \<open>
  What \<^verbatim>\<open>DoInlineObjectValue\<close> does to a slot whose first id is the resolved id: the id
  list is cleared; an in-plasma error puts the raylet-transport id back, any other value
  has its data and metadata copied into the inline fields when it has them.
\<close>

definition inline_arg :: "ObjectID \<Rightarrow> RayObject \<Rightarrow> TaskArg \<Rightarrow> TaskArg" where
  "inline_arg obj_id obj mutable_arg =
     (let cleared = mutable_arg\<lparr>arg_object_ids := []\<rparr> in
      if IsInPlasmaError obj
      then cleared\<lparr>arg_object_ids := [WithTransportType RAYLET obj_id]\<rparr>
      else
        let a1 = (if HasData obj then cleared\<lparr>arg_data := the (data obj)\<rparr> else cleared)
        in (if HasMetadata obj then a1\<lparr>arg_metadata := the (metadata obj)\<rparr> else a1))"

text \<open>
  The loop over the argument slots. The list argument is the part of the slots from the
  current position on, the result is that part after the loop together with \<open>found\<close>.
  Slot \<open>i\<close> is read and written only in round \<open>i\<close>.
\<close>

fun DoInline_loop :: "ObjectID \<Rightarrow> RayObject \<Rightarrow> TaskArg list \<Rightarrow> bool \<Rightarrow> TaskArg list \<times> bool" where
  "DoInline_loop obj_id obj [] found = ([], found)"
| "DoInline_loop obj_id obj (arg # rest) found =
     (if length (arg_object_ids arg) > 0 \<and> hd (arg_object_ids arg) = obj_id
      then (case DoInline_loop obj_id obj rest True of
              (rest', found') \<Rightarrow> (inline_arg obj_id obj arg # rest', found'))
      else (case DoInline_loop obj_id obj rest found of
              (rest', found') \<Rightarrow> (arg # rest', found')))"

definition DoInlineObjectValue ::
  "ObjectID \<Rightarrow> RayObject \<Rightarrow> TaskSpecification \<Rightarrow> Abort + TaskSpecification" where
  "DoInlineObjectValue obj_id obj task =
     (case DoInline_loop obj_id obj (args task) False of
        (args', found) \<Rightarrow> if found then Inr (task\<lparr>args := args'\<rparr>) else Inl Check_found)"

text \<open>The slots whose first referenced id is the given id.\<close>

definition slots_referencing :: "ObjectID \<Rightarrow> TaskSpecification \<Rightarrow> TaskArg list" where
  "slots_referencing obj_id task =
     filter (\<lambda>arg. length (arg_object_ids arg) > 0 \<and> hd (arg_object_ids arg) = obj_id) (args task)"

text \<open>
  The state that \<^verbatim>\<open>ResolveDependencies\<close> shares with the callbacks of one task: the
  task, into whose slots the callbacks inline, and the dependencies that are still
  pending (a hash set, kept as a duplicate-free list).
\<close>

record TaskState =
  ts_task :: TaskSpecification
  local_dependencies :: "ObjectID list"

record LocalDependencyResolver =
  task_states :: "task_state_ref \<rightharpoonup> TaskState"
  num_pending :: int

definition LocalDependencyResolver_new :: LocalDependencyResolver where
  "LocalDependencyResolver_new = \<lparr>task_states = Map.empty, num_pending = 0\<rparr>"

text \<open>
  The callback that \<^verbatim>\<open>ResolveDependencies\<close> hands to \<^verbatim>\<open>GetAsync\<close>, up to the point
  where it calls \<^verbatim>\<open>on_complete\<close>. Under the resolver's mutex the id is erased from the
  pending dependencies and the value is inlined; when no dependency is left the task is
  complete and \<^verbatim>\<open>num_pending_\<close> is decremented. The Boolean result is
  \<^verbatim>\<open>complete\<close>: when it is true the callback goes on to call \<^verbatim>\<open>on_complete\<close>. The
  closure keeps its state alive, so a reference without a state does not occur.
\<close>

definition resolver_callback ::
  "task_state_ref \<Rightarrow> ObjectID \<Rightarrow> RayObject \<Rightarrow> LocalDependencyResolver \<Rightarrow>
   Abort + (bool \<times> LocalDependencyResolver)" where
  "resolver_callback ref obj_id obj r =
     (case task_states r ref of
        None \<Rightarrow> Inr (False, r)
      | Some state \<Rightarrow>
          (case DoInlineObjectValue obj_id obj (ts_task state) of
             Inl a \<Rightarrow> Inl a
           | Inr inlined \<Rightarrow>
               let deps = removeAll obj_id (local_dependencies state);
                   r1 = r\<lparr>task_states :=
                          (task_states r)(ref \<mapsto> \<lparr>ts_task = inlined, local_dependencies = deps\<rparr>)\<rparr>
               in if deps = [] then Inr (True, r1\<lparr>num_pending := num_pending r1 - 1\<rparr>)
                  else Inr (False, r1)))"

section \<open>The direct task submitter\<close>

type_synonym client_id = nat

record CoreWorkerDirectTaskSubmitter =
  queued_tasks :: "TaskSpecification list"
  client_cache :: "WorkerAddress \<rightharpoonup> client_id"
  worker_request_pending :: bool
  client_factory :: "WorkerAddress \<Rightarrow> client_id"
  in_memory_store :: CoreWorkerMemoryStore
  resolver :: LocalDependencyResolver

definition CoreWorkerDirectTaskSubmitter_new ::
  "(WorkerAddress \<Rightarrow> client_id) \<Rightarrow> CoreWorkerMemoryStore \<Rightarrow> CoreWorkerDirectTaskSubmitter" where
  "CoreWorkerDirectTaskSubmitter_new factory store =
     \<lparr>queued_tasks = [], client_cache = Map.empty, worker_request_pending = False,
      client_factory = factory, in_memory_store = store,
      resolver = LocalDependencyResolver_new\<rparr>"

text \<open>
  The statuses that the lease client and the worker stub return to the calls made during
  one operation of the submitter (each operation makes each of the three calls at most
  once).
\<close>

record Replies =
  RequestWorkerLease_status :: Status
  ReturnWorker_status :: Status
  PushNormalTask_status :: Status

definition RequestNewWorkerIfNeeded ::
  "Replies \<Rightarrow> TaskSpecification \<Rightarrow> CoreWorkerDirectTaskSubmitter \<Rightarrow>
   Abort + (Effect list \<times> CoreWorkerDirectTaskSubmitter)" where
  "RequestNewWorkerIfNeeded env resource_spec s =
     (if worker_request_pending s then Inr ([], s)
      else if \<not> ok (RequestWorkerLease_status env) then Inl Check_RequestWorkerLease
      else Inr ([RequestWorkerLease resource_spec], s\<lparr>worker_request_pending := True\<rparr>))"

text \<open>
  Modelled from the spec: \<^verbatim>\<open>TreatTaskAsFailed\<close> (defined outside the verified sources).
  For each of the \<open>num_returns\<close> return ids of the task, which are direct-call ids, it
  puts an object without data whose metadata is the tag of the error type.
\<close>

definition failure_object :: "ErrorType \<Rightarrow> RayObject" where
  "failure_object e = RayObject_new None (Some (error_metadata e)) False"

fun TreatTaskAsFailed_from ::
  "nat \<Rightarrow> TaskID \<Rightarrow> nat \<Rightarrow> ErrorType \<Rightarrow> CoreWorkerMemoryStore \<Rightarrow>
   Abort + (Effect list \<times> CoreWorkerMemoryStore)" where
  "TreatTaskAsFailed_from i tid 0 error_type store = Inr ([], store)"
| "TreatTaskAsFailed_from i tid (Suc n) error_type store =
     (case Put (ForTaskReturn tid (Suc i) DIRECT) (failure_object error_type) store of
        Inl a \<Rightarrow> Inl a
      | Inr (st, evs, store1) \<Rightarrow>
          (case TreatTaskAsFailed_from (Suc i) tid n error_type store1 of
             Inl a \<Rightarrow> Inl a
           | Inr (evs', store2) \<Rightarrow> Inr (evs @ evs', store2)))"

definition TreatTaskAsFailed ::
  "TaskID \<Rightarrow> nat \<Rightarrow> ErrorType \<Rightarrow> CoreWorkerMemoryStore \<Rightarrow>
   Abort + (Effect list \<times> CoreWorkerMemoryStore)" where
  "TreatTaskAsFailed tid n error_type store = TreatTaskAsFailed_from 0 tid n error_type store"

text \<open>
  Modelled from the spec: \<^verbatim>\<open>WriteObjectsToMemoryStore\<close> (defined outside the verified
  sources) writes each returned object of the reply into the store.
\<close>

fun WriteObjectsToMemoryStore ::
  "(ObjectID \<times> RayObject) list \<Rightarrow> CoreWorkerMemoryStore \<Rightarrow>
   Abort + (Effect list \<times> CoreWorkerMemoryStore)" where
  "WriteObjectsToMemoryStore [] store = Inr ([], store)"
| "WriteObjectsToMemoryStore ((object_id, obj) # reply) store =
     (case Put object_id obj store of
        Inl a \<Rightarrow> Inl a
      | Inr (st, evs, store1) \<Rightarrow>
          (case WriteObjectsToMemoryStore reply store1 of
             Inl a \<Rightarrow> Inl a
           | Inr (evs', store2) \<Rightarrow> Inr (evs @ evs', store2)))"

text \<open>
  \<^verbatim>\<open>PushNormalTask\<close> is called by \<^verbatim>\<open>OnWorkerIdle\<close> only, which holds the submitter's
  mutex \<^verbatim>\<open>mu_\<close> across the call. \<^verbatim>\<open>Put\<close> runs the callbacks that it has released in
  the calling thread, before it returns. A callback of the resolver that finds its task
  complete calls \<^verbatim>\<open>on_complete\<close>, the callback of \<^verbatim>\<open>SubmitTask\<close>, whose first step
  is to lock \<^verbatim>\<open>mu_\<close>: run by a thread that holds \<^verbatim>\<open>mu_\<close>, it waits for ever. A
  callback of the resolver that leaves dependencies pending returns, and a callback of
  another caller is taken not to use the submitter.
\<close>

fun run_callbacks_holding_mu ::
  "Effect list \<Rightarrow> LocalDependencyResolver \<Rightarrow> Abort + LocalDependencyResolver" where
  "run_callbacks_holding_mu [] r = Inr r"
| "run_callbacks_holding_mu (CallbackRun (ResolverCallback ref obj_id) obj # evs) r =
     (case resolver_callback ref obj_id obj r of
        Inl a \<Rightarrow> Inl a
      | Inr (complete, r1) \<Rightarrow>
          if complete then Inl Deadlock_mu else run_callbacks_holding_mu evs r1)"
| "run_callbacks_holding_mu (e # evs) r = run_callbacks_holding_mu evs r"

text \<open>
  Modelled from the spec: \<^verbatim>\<open>TreatTaskAsFailed\<close> (defined outside the verified sources)
  as called by a thread that holds \<^verbatim>\<open>mu_\<close>: the same puts, each with the callbacks
  that \<^verbatim>\<open>Put\<close> runs before it returns.
\<close>

fun TreatTaskAsFailed_holding_mu ::
  "nat \<Rightarrow> TaskID \<Rightarrow> nat \<Rightarrow> ErrorType \<Rightarrow> CoreWorkerDirectTaskSubmitter \<Rightarrow>
   Abort + (Effect list \<times> CoreWorkerDirectTaskSubmitter)" where
  "TreatTaskAsFailed_holding_mu i tid 0 error_type s = Inr ([], s)"
| "TreatTaskAsFailed_holding_mu i tid (Suc n) error_type s =
     (case Put (ForTaskReturn tid (Suc i) DIRECT) (failure_object error_type) (in_memory_store s) of
        Inl a \<Rightarrow> Inl a
      | Inr (st, evs, store1) \<Rightarrow>
          (case run_callbacks_holding_mu evs (resolver s) of
             Inl a \<Rightarrow> Inl a
           | Inr r1 \<Rightarrow>
               (case TreatTaskAsFailed_holding_mu (Suc i) tid n error_type
                       (s\<lparr>in_memory_store := store1, resolver := r1\<rparr>) of
                  Inl a \<Rightarrow> Inl a
                | Inr (evs', s2) \<Rightarrow> Inr (evs @ evs', s2))))"

text \<open>
  \<^verbatim>\<open>PushNormalTask\<close>: the payload is handed to the stub together with the completion
  (below); when the stub's call itself returns a status that is not OK, the task is
  treated as failed at once, by the thread that holds \<^verbatim>\<open>mu_\<close>.
\<close>

definition PushNormalTask ::
  "Replies \<Rightarrow> WorkerAddress \<Rightarrow> client_id \<Rightarrow> TaskSpecification \<Rightarrow> CoreWorkerDirectTaskSubmitter \<Rightarrow>
   Abort + (Effect list \<times> CoreWorkerDirectTaskSubmitter)" where
  "PushNormalTask env addr client task_spec s =
     (if \<not> ok (PushNormalTask_status env)
      then (case TreatTaskAsFailed_holding_mu 0 (task_id task_spec) (num_returns task_spec)
                   WORKER_DIED s of
              Inl a \<Rightarrow> Inl a
            | Inr (evs, s1) \<Rightarrow> Inr (PushNormalTaskRpc addr task_spec # evs, s1))
      else Inr ([PushNormalTaskRpc addr task_spec], s))"

text \<open>
  \<^verbatim>\<open>OnWorkerIdle\<close>. \<^verbatim>\<open>*client_cache_[addr]\<close> dereferences a null pointer when the address
  has no stub; that is the outcome \<open>Null_client\<close>.
\<close>

definition OnWorkerIdle ::
  "Replies \<Rightarrow> WorkerAddress \<Rightarrow> bool \<Rightarrow> CoreWorkerDirectTaskSubmitter \<Rightarrow>
   Abort + (Effect list \<times> CoreWorkerDirectTaskSubmitter)" where
  "OnWorkerIdle env addr was_error s =
     (case (if queued_tasks s = [] \<or> was_error
            then (if ok (ReturnWorker_status env) then Inr ([ReturnWorker (snd addr)], s)
                  else Inl Check_ReturnWorker)
            else (case client_cache s addr of
                    None \<Rightarrow> Inl Null_client
                  | Some client \<Rightarrow>
                      (case PushNormalTask env addr client (hd (queued_tasks s)) s of
                         Inl a \<Rightarrow> Inl a
                       | Inr (evs, s1) \<Rightarrow> Inr (evs, s1\<lparr>queued_tasks := tl (queued_tasks s1)\<rparr>))))
      of
        Inl a \<Rightarrow> Inl a
      | Inr (evs, s2) \<Rightarrow>
          (if queued_tasks s2 \<noteq> []
           then (case RequestNewWorkerIfNeeded env (hd (queued_tasks s2)) s2 of
                   Inl a \<Rightarrow> Inl a
                 | Inr (evs', s3) \<Rightarrow> Inr (evs @ evs', s3))
           else Inr (evs, s2)))"

text \<open>
  The critical section of \<^verbatim>\<open>HandleWorkerLeaseGranted\<close>, and the whole handler, which goes
  on to \<^verbatim>\<open>OnWorkerIdle\<close> after releasing the lock.
\<close>

definition HandleWorkerLeaseGranted_locked ::
  "WorkerAddress \<Rightarrow> CoreWorkerDirectTaskSubmitter \<Rightarrow> CoreWorkerDirectTaskSubmitter" where
  "HandleWorkerLeaseGranted_locked addr s =
     (let s1 = s\<lparr>worker_request_pending := False\<rparr> in
      case client_cache s1 addr of
        None \<Rightarrow> s1\<lparr>client_cache := (client_cache s1)(addr \<mapsto> client_factory s1 addr)\<rparr>
      | Some _ \<Rightarrow> s1)"

definition HandleWorkerLeaseGranted ::
  "Replies \<Rightarrow> WorkerAddress \<Rightarrow> CoreWorkerDirectTaskSubmitter \<Rightarrow>
   Abort + (Effect list \<times> CoreWorkerDirectTaskSubmitter)" where
  "HandleWorkerLeaseGranted env addr s =
     OnWorkerIdle env addr False (HandleWorkerLeaseGranted_locked addr s)"

text \<open>
  The callback that \<^verbatim>\<open>SubmitTask\<close> hands to the resolver, run when the dependencies of
  the task are resolved.
\<close>

definition SubmitTask_on_complete ::
  "Replies \<Rightarrow> TaskSpecification \<Rightarrow> CoreWorkerDirectTaskSubmitter \<Rightarrow>
   Abort + (Effect list \<times> CoreWorkerDirectTaskSubmitter)" where
  "SubmitTask_on_complete env task_spec s =
     (case RequestNewWorkerIfNeeded env task_spec s of
        Inl a \<Rightarrow> Inl a
      | Inr (evs, s1) \<Rightarrow> Inr (evs, s1\<lparr>queued_tasks := queued_tasks s1 @ [task_spec]\<rparr>))"

text \<open>
  The completion that \<^verbatim>\<open>PushNormalTask\<close> hands to the stub, with the task id, the number
  of returns and the address it captured, applied to the status and the reply of the RPC.
  \<^verbatim>\<open>OnWorkerIdle\<close> has released \<^verbatim>\<open>mu_\<close> when the objects are written, so the
  callbacks that the puts run take the locks they need themselves; they are recorded,
  and what they do to the resolver and the submitter are steps of their own.
\<close>

definition PushNormalTask_completion ::
  "TaskID \<Rightarrow> nat \<Rightarrow> WorkerAddress \<Rightarrow> Replies \<Rightarrow> Status \<Rightarrow> (ObjectID \<times> RayObject) list \<Rightarrow>
   CoreWorkerDirectTaskSubmitter \<Rightarrow> Abort + (Effect list \<times> CoreWorkerDirectTaskSubmitter)" where
  "PushNormalTask_completion tid n addr env status reply s =
     (case OnWorkerIdle env addr (\<not> ok status) s of
        Inl a \<Rightarrow> Inl a
      | Inr (evs, s1) \<Rightarrow>
          (case (if \<not> ok status then TreatTaskAsFailed tid n WORKER_DIED (in_memory_store s1)
                 else WriteObjectsToMemoryStore reply (in_memory_store s1)) of
             Inl a \<Rightarrow> Inl a
           | Inr (evs', store) \<Rightarrow> Inr (evs @ evs', s1\<lparr>in_memory_store := store\<rparr>)))"

section \<open>Reachable states\<close>

text \<open>
  Every member of the store is read and written under the store's mutex, so the threads
  that use a store interleave at the grain of its critical sections. A state is
  reachable when critical sections that did not abort lead to it from a new store.
  \<^verbatim>\<open>Get\<close> contributes its two critical sections separately, since other threads run
  between them. The second one is allowed here for any reference and any id vector,
  which can only add states.
\<close>

inductive ims_reachable :: "CoreWorkerMemoryStore \<Rightarrow> bool" where
  ims_new: "ims_reachable (CoreWorkerMemoryStore_new sip)"
| ims_Put: "ims_reachable s \<Longrightarrow> Put object_id obj s = Inr (st, evs, s') \<Longrightarrow> ims_reachable s'"
| ims_GetAsync: "ims_reachable s \<Longrightarrow> GetAsync object_id cb s = (evs, s') \<Longrightarrow> ims_reachable s'"
| ims_GetOrPromoteToPlasma:
    "ims_reachable s \<Longrightarrow> GetOrPromoteToPlasma object_id s = Inr (res, s') \<Longrightarrow> ims_reachable s'"
| ims_Get_begin:
    "ims_reachable s \<Longrightarrow> Get_begin ids n rm res0 s = Inr (p, s') \<Longrightarrow> ims_reachable s'"
| ims_Get_finish:
    "ims_reachable s \<Longrightarrow> Get_finish r ids res s = (res', s') \<Longrightarrow> ims_reachable s'"
| ims_Delete: "ims_reachable s \<Longrightarrow> ims_reachable (Delete ids s)"

text \<open>
  A run of the submitter: its state together with the number of lease requests it has
  sent and the number of lease grants it has handled. The lease service grants a lease
  only in answer to a request, so a grant arrives only while a request is outstanding.
  The steps are the critical sections of the submitter; the store it points to is also
  written by other threads, and the resolver by \<^verbatim>\<open>ResolveDependencies\<close> and its
  callbacks.
\<close>

fun is_lease_request :: "Effect \<Rightarrow> bool" where
  "is_lease_request (RequestWorkerLease spec) = True"
| "is_lease_request e = False"

fun is_push :: "Effect \<Rightarrow> bool" where
  "is_push (PushNormalTaskRpc addr task) = True"
| "is_push e = False"

fun is_return_worker :: "Effect \<Rightarrow> bool" where
  "is_return_worker (ReturnWorker port) = True"
| "is_return_worker e = False"

record SubmitterRun =
  submitter :: CoreWorkerDirectTaskSubmitter
  lease_requests_issued :: nat
  leases_granted :: nat

definition outstanding_lease_requests :: "SubmitterRun \<Rightarrow> nat" where
  "outstanding_lease_requests run = lease_requests_issued run - leases_granted run"

definition after_step ::
  "SubmitterRun \<Rightarrow> Effect list \<Rightarrow> CoreWorkerDirectTaskSubmitter \<Rightarrow> SubmitterRun" where
  "after_step run evs s' =
     run\<lparr>submitter := s',
         lease_requests_issued := lease_requests_issued run + length (filter is_lease_request evs)\<rparr>"

inductive dts_reachable :: "SubmitterRun \<Rightarrow> bool" where
  dts_new:
    "dts_reachable \<lparr>submitter = CoreWorkerDirectTaskSubmitter_new factory store,
                    lease_requests_issued = 0, leases_granted = 0\<rparr>"
| dts_on_complete:
    "dts_reachable run \<Longrightarrow> SubmitTask_on_complete env task_spec (submitter run) = Inr (evs, s') \<Longrightarrow>
     dts_reachable (after_step run evs s')"
| dts_lease_granted:
    "dts_reachable run \<Longrightarrow> leases_granted run < lease_requests_issued run \<Longrightarrow>
     dts_reachable (run\<lparr>submitter := HandleWorkerLeaseGranted_locked addr (submitter run),
                        leases_granted := Suc (leases_granted run)\<rparr>)"
| dts_worker_idle:
    "dts_reachable run \<Longrightarrow> OnWorkerIdle env addr was_error (submitter run) = Inr (evs, s') \<Longrightarrow>
     dts_reachable (after_step run evs s')"
| dts_store_written:
    "dts_reachable run \<Longrightarrow>
     dts_reachable (run\<lparr>submitter := (submitter run)\<lparr>in_memory_store := store\<rparr>\<rparr>)"
| dts_resolver_written:
    "dts_reachable run \<Longrightarrow>
     dts_reachable (run\<lparr>submitter := (submitter run)\<lparr>resolver := r\<rparr>\<rparr>)"

section \<open>Example values\<close>

definition id_A :: ObjectID where
  "id_A = ObjectID DIRECT 7 1"

definition id_B :: ObjectID where
  "id_B = ObjectID DIRECT 7 2"

definition obj_v :: RayObject where
  "obj_v = \<lparr>data = Some [1, 2], metadata = None\<rparr>"

definition store_with_A_B :: CoreWorkerMemoryStore where
  "store_with_A_B = (CoreWorkerMemoryStore_new None)\<lparr>objects := [id_A \<mapsto> obj_v, id_B \<mapsto> obj_v]\<rparr>"

definition store_with_plasma_error :: CoreWorkerMemoryStore where
  "store_with_plasma_error =
     (CoreWorkerMemoryStore_new None)\<lparr>objects := [id_A \<mapsto> failure_object OBJECT_IN_PLASMA]\<rparr>"

definition store_with_A :: CoreWorkerMemoryStore where
  "store_with_A = (CoreWorkerMemoryStore_new None)\<lparr>objects := [id_A \<mapsto> obj_v]\<rparr>"

section \<open>Auxiliary notions and further examples\<close>

text \<open>The number of ids of a vector that the store holds, counted with repetitions.\<close>

definition found_count :: "(ObjectID \<rightharpoonup> RayObject) \<Rightarrow> ObjectID list \<Rightarrow> nat" where
  "found_count objs ids = length (filter (\<lambda>object_id. objs object_id \<noteq> None) ids)"

text \<open>
  The result of a call of \<^verbatim>\<open>Get\<close> with \<open>k\<close> null pointers appended to the results.
\<close>

definition pad_results ::
  "nat \<Rightarrow> Abort + (GetOutcome \<times> CoreWorkerMemoryStore) \<Rightarrow>
   Abort + (GetOutcome \<times> CoreWorkerMemoryStore)" where
  "pad_results k r =
     (case r of
        Inr (Get_returns st res, s) \<Rightarrow> Inr (Get_returns st (res @ replicate k None), s)
      | _ \<Rightarrow> r)"

text \<open>
  The results vector that a call of \<^verbatim>\<open>Get\<close> hands back, given what its first
  critical section left and the state \<open>g\<close> of its request when the second one
  runs.
\<close>

definition final_results :: "ObjectID list \<Rightarrow> GetProgress \<Rightarrow> GetRequest \<Rightarrow> RayObject option list" where
  "final_results ids p g =
     (case p of Returned st res \<Rightarrow> res | Waiting r res \<Rightarrow> Get_populate g ids res)"

definition example_request :: GetRequest where
  "example_request = \<lparr>gr_object_ids = [id_B], gr_objects = [(id_B, obj_v)], gr_num_objects = 1,
                       gr_remove_after_get = True, gr_is_ready = True\<rparr>"

text \<open>
  No request registered under the id removes after get.
\<close>

definition no_removing_waiter :: "CoreWorkerMemoryStore \<Rightarrow> ObjectID \<Rightarrow> bool" where
  "no_removing_waiter s object_id =
     (\<forall>rs r g. object_get_requests s object_id = Some rs \<longrightarrow> r \<in> set rs \<longrightarrow>
        request_heap s r = Some g \<longrightarrow> \<not> gr_remove_after_get g)"

text \<open>A result of \<^verbatim>\<open>Get\<close> without the store.\<close>

definition outcome_of :: "Abort + (GetOutcome \<times> CoreWorkerMemoryStore) \<Rightarrow> Abort + GetOutcome" where
  "outcome_of r = (case r of Inl a \<Rightarrow> Inl a | Inr (outcome, s) \<Rightarrow> Inr outcome)"

text \<open>
  A store in which one reader waits for \<open>id_A\<close> and removes after get (reached from a
  new store by the first critical section of \<^verbatim>\<open>Get([id_A], 1, -1, true)\<close>), and the
  same store after \<^verbatim>\<open>Put(id_A, obj_v)\<close>.
\<close>

definition removing_request :: GetRequest where
  "removing_request = \<lparr>gr_object_ids = [id_A], gr_objects = [], gr_num_objects = 1,
                        gr_remove_after_get = True, gr_is_ready = False\<rparr>"

definition store_removing_waiter :: CoreWorkerMemoryStore where
  "store_removing_waiter =
     (CoreWorkerMemoryStore_new None)
       \<lparr>object_get_requests := [id_A \<mapsto> [0]], request_heap := [0 \<mapsto> removing_request],
        next_ref := 1\<rparr>"

definition store_removing_waiter_served :: CoreWorkerMemoryStore where
  "store_removing_waiter_served =
     store_removing_waiter
       \<lparr>request_heap := [0 \<mapsto> removing_request\<lparr>gr_objects := [(id_A, obj_v)],
                                                     gr_is_ready := True\<rparr>]\<rparr>"

text \<open>
  What holds of every request in a reachable store: a ready request holds exactly the
  number of objects it needs, and a request that needs at least one object holds at most
  that many, fewer while it is not ready.
\<close>

definition request_sizes_ok :: "GetRequest \<Rightarrow> bool" where
  "request_sizes_ok g =
     ((gr_is_ready g \<longrightarrow> length (gr_objects g) = gr_num_objects g) \<and>
      (1 \<le> gr_num_objects g \<longrightarrow>
         length (gr_objects g) \<le> gr_num_objects g \<and>
         (\<not> gr_is_ready g \<longrightarrow> length (gr_objects g) < gr_num_objects g)))"

text \<open>
  A store in which one reader waits for \<open>id_A\<close> without removing (reached from a new
  store by the first critical section of \<^verbatim>\<open>Get([id_A], 1, -1, false)\<close>), and the same
  store after \<^verbatim>\<open>Put(id_A, obj_v)\<close>.
\<close>

definition waiting_request :: GetRequest where
  "waiting_request = \<lparr>gr_object_ids = [id_A], gr_objects = [], gr_num_objects = 1,
                       gr_remove_after_get = False, gr_is_ready = False\<rparr>"

definition store_waiter :: CoreWorkerMemoryStore where
  "store_waiter =
     (CoreWorkerMemoryStore_new None)
       \<lparr>object_get_requests := [id_A \<mapsto> [0]], request_heap := [0 \<mapsto> waiting_request],
        next_ref := 1\<rparr>"

definition served_request :: GetRequest where
  "served_request = waiting_request\<lparr>gr_objects := [(id_A, obj_v)], gr_is_ready := True\<rparr>"

definition store_waiter_served :: CoreWorkerMemoryStore where
  "store_waiter_served =
     store_waiter\<lparr>objects := [id_A \<mapsto> obj_v], request_heap := [0 \<mapsto> served_request]\<rparr>"

text \<open>
  The invariant of the reachable stores: the sizes of every request, a request behind
  every registered reference, and only direct-call ids in \<^verbatim>\<open>objects_\<close>.
\<close>

definition store_invariant :: "CoreWorkerMemoryStore \<Rightarrow> bool" where
  "store_invariant s =
     ((\<forall>r g. request_heap s r = Some g \<longrightarrow> request_sizes_ok g) \<and>
      (\<forall>object_id rs r. object_get_requests s object_id = Some rs \<longrightarrow> r \<in> set rs \<longrightarrow>
         request_heap s r \<noteq> None) \<and>
      (\<forall>object_id v. objects s object_id = Some v \<longrightarrow> IsDirectCallType object_id))"

text \<open>
  The test that the loop of \<^verbatim>\<open>DoInlineObjectValue\<close> applies to a slot, and the slots
  after the loop.
\<close>

definition references_first :: "ObjectID \<Rightarrow> TaskArg \<Rightarrow> bool" where
  "references_first obj_id arg =
     (length (arg_object_ids arg) > 0 \<and> hd (arg_object_ids arg) = obj_id)"

definition inlined_args :: "ObjectID \<Rightarrow> RayObject \<Rightarrow> TaskArg list \<Rightarrow> TaskArg list" where
  "inlined_args obj_id obj slots =
     map (\<lambda>arg. if references_first obj_id arg then inline_arg obj_id obj arg else arg) slots"

text \<open>Tasks whose slots reference \<open>id_A\<close> twice and not at all.\<close>

definition task_two_refs :: TaskSpecification where
  "task_two_refs =
     \<lparr>task_id = 7, num_returns = 1,
      args = [\<lparr>arg_object_ids = [id_A], arg_data = [], arg_metadata = []\<rparr>,
              \<lparr>arg_object_ids = [id_A], arg_data = [], arg_metadata = []\<rparr>]\<rparr>"

definition task_no_ref :: TaskSpecification where
  "task_no_ref =
     \<lparr>task_id = 7, num_returns = 1,
      args = [\<lparr>arg_object_ids = [id_B], arg_data = [], arg_metadata = []\<rparr>,
              \<lparr>arg_object_ids = [], arg_data = [5], arg_metadata = []\<rparr>]\<rparr>"

text \<open>The effects that the store itself causes.\<close>

fun is_store_effect :: "Effect \<Rightarrow> bool" where
  "is_store_effect (CallbackRun cb obj) = True"
| "is_store_effect (StoreInPlasma obj object_id) = True"
| "is_store_effect (SetCalled r object_id obj) = True"
| "is_store_effect e = False"

text \<open>
  The number of lease requests among the effects of a step makes up for the change of
  \<^verbatim>\<open>worker_request_pending_\<close>.
\<close>

definition lease_balance ::
  "CoreWorkerDirectTaskSubmitter \<Rightarrow> Effect list \<Rightarrow> CoreWorkerDirectTaskSubmitter \<Rightarrow> bool" where
  "lease_balance s evs s' =
     (length (filter is_lease_request evs) + (if worker_request_pending s then 1 else 0) =
        (if worker_request_pending s' then 1 else 0))"

text \<open>
  A task without arguments, replies that are all OK, a new submitter, and its run before
  and after the resolver's completion callback has queued the task.
\<close>

definition task_plain :: TaskSpecification where
  "task_plain = \<lparr>task_id = 9, num_returns = 2, args = []\<rparr>"

definition all_ok :: Replies where
  "all_ok = \<lparr>RequestWorkerLease_status = OK, ReturnWorker_status = OK,
             PushNormalTask_status = OK\<rparr>"

definition submitter_new :: CoreWorkerDirectTaskSubmitter where
  "submitter_new = CoreWorkerDirectTaskSubmitter_new (\<lambda>addr. 0) (CoreWorkerMemoryStore_new None)"

definition run_new :: SubmitterRun where
  "run_new = \<lparr>submitter = submitter_new, lease_requests_issued = 0, leases_granted = 0\<rparr>"

definition run_submitted :: SubmitterRun where
  "run_submitted =
     \<lparr>submitter = submitter_new\<lparr>worker_request_pending := True, queued_tasks := [task_plain]\<rparr>,
      lease_requests_issued = 1, leases_granted = 0\<rparr>"

text \<open>
  The lease request that \<^verbatim>\<open>OnWorkerIdle\<close> sends at its end when it has dispatched
  nothing: one for the head of the queue, unless the queue is empty or a request is
  pending; and the submitter after it.
\<close>

definition lease_request_if_needed :: "CoreWorkerDirectTaskSubmitter \<Rightarrow> Effect list" where
  "lease_request_if_needed s =
     (if queued_tasks s \<noteq> [] \<and> \<not> worker_request_pending s
      then [RequestWorkerLease (hd (queued_tasks s))] else [])"

definition after_lease_request ::
  "CoreWorkerDirectTaskSubmitter \<Rightarrow> CoreWorkerDirectTaskSubmitter" where
  "after_lease_request s =
     (if queued_tasks s \<noteq> [] \<and> \<not> worker_request_pending s
      then s\<lparr>worker_request_pending := True\<rparr> else s)"

text \<open>
  What treating a task as failed leaves in the store for its return ids: an id that the
  store held keeps its object, and an id that it did not hold, and for which no reader
  that removes after get waits, holds the failure object.
\<close>

definition failure_objects_written ::
  "TaskID \<Rightarrow> nat \<Rightarrow> ErrorType \<Rightarrow> CoreWorkerMemoryStore \<Rightarrow> CoreWorkerMemoryStore \<Rightarrow> bool" where
  "failure_objects_written tid n e store store' =
     (\<forall>i. 1 \<le> i \<and> i \<le> n \<longrightarrow>
        (objects store (ForTaskReturn tid i DIRECT) = None \<and>
         no_removing_waiter store (ForTaskReturn tid i DIRECT) \<longrightarrow>
           objects store' (ForTaskReturn tid i DIRECT) = Some (failure_object e)) \<and>
        (\<forall>v. objects store (ForTaskReturn tid i DIRECT) = Some v \<longrightarrow>
           objects store' (ForTaskReturn tid i DIRECT) = Some v))"

text \<open>A reply record in which the push itself fails, and a submitter with a cached stub.\<close>

definition push_fails :: Replies where
  "push_fails = all_ok\<lparr>PushNormalTask_status := IOError\<rparr>"

text \<open>
  A task whose only argument references the first return id of \<open>task_plain\<close>; the
  resolver and the store after it has been submitted and before that id is put; and the
  submitter in which \<open>task_plain\<close> is queued and a worker has been leased.
\<close>

definition task_dependent :: TaskSpecification where
  "task_dependent =
     \<lparr>task_id = 10, num_returns = 1,
      args = [\<lparr>arg_object_ids = [ObjectID DIRECT 9 1], arg_data = [], arg_metadata = []\<rparr>]\<rparr>"

definition resolver_dependent :: LocalDependencyResolver where
  "resolver_dependent =
     \<lparr>task_states = [0 \<mapsto> \<lparr>ts_task = task_dependent,
                             local_dependencies = [ObjectID DIRECT 9 1]\<rparr>],
      num_pending = 1\<rparr>"

definition store_dependent :: CoreWorkerMemoryStore where
  "store_dependent =
     (CoreWorkerMemoryStore_new None)
       \<lparr>object_async_get_requests :=
          [ObjectID DIRECT 9 1 \<mapsto> [ResolverCallback 0 (ObjectID DIRECT 9 1)]]\<rparr>"

definition submitter_dependent :: CoreWorkerDirectTaskSubmitter where
  "submitter_dependent =
     submitter_new\<lparr>queued_tasks := [task_plain], client_cache := [(''h'', 1) \<mapsto> 0],
                    in_memory_store := store_dependent, resolver := resolver_dependent\<rparr>"

text \<open>
  The store after the first return id has been put, and the dependent task and the
  resolver after the callback has inlined the failure object.
\<close>

definition store_first_failed :: CoreWorkerMemoryStore where
  "store_first_failed =
     (CoreWorkerMemoryStore_new None)
       \<lparr>objects := [ObjectID DIRECT 9 1 \<mapsto> failure_object WORKER_DIED]\<rparr>"

definition task_dependent_inlined :: TaskSpecification where
  "task_dependent_inlined =
     \<lparr>task_id = 10, num_returns = 1,
      args = [\<lparr>arg_object_ids = [], arg_data = [],
              arg_metadata = error_metadata WORKER_DIED\<rparr>]\<rparr>"

definition resolver_dependent_complete :: LocalDependencyResolver where
  "resolver_dependent_complete =
     \<lparr>task_states = [0 \<mapsto> \<lparr>ts_task = task_dependent_inlined, local_dependencies = []\<rparr>],
      num_pending = 0\<rparr>"

definition store_failed_plain :: CoreWorkerMemoryStore where
  "store_failed_plain =
     (CoreWorkerMemoryStore_new None)
       \<lparr>objects := [ObjectID DIRECT 9 1 \<mapsto> failure_object WORKER_DIED,
                    ObjectID DIRECT 9 2 \<mapsto> failure_object WORKER_DIED]\<rparr>"

section \<open>Properties of the in-memory store\<close>

subsection \<open>The first loop of Get\<close>

lemma found_count_simps [simp]:
  "found_count objs [] = 0"
  "found_count objs (x # xs) = (if objs x = None then 0 else 1) + found_count objs xs"
  by (simp_all add: found_count_def)

lemma found_count_take_le: "found_count objs (take j ids) \<le> found_count objs ids"
proof -
  have "found_count objs ids = found_count objs (take j ids) + found_count objs (drop j ids)"
    unfolding found_count_def by (metis append_take_drop_id filter_append length_append)
  then show ?thesis by simp
qed

lemma Get_scan_stop: "\<not> count st < n \<Longrightarrow> Get_scan objs rm n ids i st = st"
  by (cases ids) simp_all

lemma Get_scan_length:
  "length (results (Get_scan objs rm n ids i st)) = length (results st)"
  by (induction ids arbitrary: i st) (auto split: option.splits)

lemma Get_scan_count:
  "count (Get_scan objs rm n ids i st) =
     (if count st < n then min n (count st + int (found_count objs ids)) else count st)"
  by (induction ids arbitrary: i st) (auto split: option.splits)

lemma Get_scan_append:
  "Get_scan objs rm n (pre @ post) i st =
     Get_scan objs rm n post (i + length pre) (Get_scan objs rm n pre i st)"
  by (induction pre arbitrary: i st rm) (simp_all add: Get_scan_stop split: option.splits)

lemma Get_scan_results_append:
  "i + length ids \<le> length rs \<Longrightarrow>
   Get_scan objs rm n ids i \<lparr>results = rs @ extra, count = c, remaining_ids = rem,
                             ids_to_remove = del\<rparr> =
     (Get_scan objs rm n ids i \<lparr>results = rs, count = c, remaining_ids = rem,
                                ids_to_remove = del\<rparr>)
     \<lparr>results := results (Get_scan objs rm n ids i \<lparr>results = rs, count = c,
                            remaining_ids = rem, ids_to_remove = del\<rparr>) @ extra\<rparr>"
proof (induction ids arbitrary: i rs c rem del rm)
  case Nil
  then show ?case by simp
next
  case (Cons x ids)
  then have i: "i < length rs" and le: "Suc i + length ids \<le> length rs" by simp_all
  have le': "\<And>v. Suc i + length ids \<le> length (rs[i := v])" using le by simp
  show ?case
    using i by (simp add: Cons.IH [OF le] Cons.IH [OF le'] list_update_append1 split: option.splits)
qed

lemma Get_scan_before:
  "p < i \<Longrightarrow> results (Get_scan objs rm n ids i st) ! p = results st ! p"
  by (induction ids arbitrary: i st) (auto split: option.splits)

lemma Get_scan_result_at:
  "i + length ids \<le> length rs \<Longrightarrow> j < length ids \<Longrightarrow>
   results (Get_scan objs rm n ids i \<lparr>results = rs, count = c, remaining_ids = rem,
                                      ids_to_remove = del\<rparr>) ! (i + j) =
     (if c + int (found_count objs (take j ids)) < n
      then (case objs (ids ! j) of Some v \<Rightarrow> Some v | None \<Rightarrow> rs ! (i + j))
      else rs ! (i + j))"
proof (induction ids arbitrary: i rs c rem del j rm)
  case Nil
  then show ?case by simp
next
  case (Cons x ids)
  show ?case
  proof (cases j)
    case 0
    with Cons.prems show ?thesis
      by (simp add: Get_scan_before split: option.splits)
  next
    case (Suc j')
    with Cons.prems have j': "j' < length ids" and le: "Suc i + length ids \<le> length rs"
      by simp_all
    have IH: "results (Get_scan objs rm n ids (Suc i)
                   \<lparr>results = rs, count = c, remaining_ids = rem, ids_to_remove = del\<rparr>)
          ! Suc (i + j') =
        (if c + int (found_count objs (take j' ids)) < n
         then (case objs (ids ! j') of Some v \<Rightarrow> Some v | None \<Rightarrow> rs ! Suc (i + j'))
         else rs ! Suc (i + j'))"
      if "Suc i + length ids \<le> length rs" for rs c rem del rm
      using Cons.IH [where i = "Suc i" and rs = rs and j = j' and c = c and rem = rem
                       and del = del and rm = rm] that j' unfolding add_Suc by simp
    have le': "\<And>v. Suc i + length ids \<le> length (rs[i := v])" using le by simp
    show ?thesis
      unfolding Suc
      by (simp add: IH [OF le] IH [OF le'] add.assoc split: option.splits)
  qed
qed

lemma Get_scan_ids_to_remove:
  "set (ids_to_remove (Get_scan objs rm n ids i st)) \<subseteq> set (ids_to_remove st) \<union> set ids"
proof (induction ids arbitrary: i st rm)
  case Nil
  then show ?case by simp
next
  case (Cons x ids)
  show ?case
  proof (cases "count st < n")
    case False
    then show ?thesis by auto
  next
    case True
    show ?thesis
    proof (cases "objs x")
      case None
      with True Cons.IH [of rm "Suc i" "st\<lparr>remaining_ids := List.insert x (remaining_ids st)\<rparr>"]
      show ?thesis by auto
    next
      case (Some obj)
      with True Cons.IH [of rm "Suc i" "st\<lparr>results := (results st)[i := Some obj],
                     ids_to_remove := (if rm then List.insert x (ids_to_remove st)
                                       else ids_to_remove st),
                     count := count st + 1\<rparr>"]
      show ?thesis by (auto split: if_splits)
    qed
  qed
qed

lemma erase_all_apply: "erase_all ids m x = (if x \<in> set ids then None else m x)"
  by (induction ids arbitrary: m) auto

lemma resize_Nil: "resize [] k = replicate k None"
  by (simp add: resize_def)

lemma Get_scan_cutoff:
  assumes "n \<le> int (found_count objs pre)"
  shows "Get_scan objs rm n (pre @ post) 0
           \<lparr>results = replicate (length (pre @ post)) None, count = 0, remaining_ids = [],
            ids_to_remove = []\<rparr> =
         (Get_scan objs rm n pre 0
           \<lparr>results = replicate (length pre) None, count = 0, remaining_ids = [],
            ids_to_remove = []\<rparr>)
         \<lparr>results := results (Get_scan objs rm n pre 0
           \<lparr>results = replicate (length pre) None, count = 0, remaining_ids = [],
            ids_to_remove = []\<rparr>) @ replicate (length post) None\<rparr>"
proof -
  let ?short = "\<lparr>results = replicate (length pre) None, count = 0, remaining_ids = [],
            ids_to_remove = []\<rparr>"
  let ?long = "\<lparr>results = replicate (length pre) None @ replicate (length post) None,
            count = 0, remaining_ids = [], ids_to_remove = []\<rparr>"
  have stop: "\<not> count (Get_scan objs rm n pre 0 ?long) < n"
    using assms by (simp add: Get_scan_count)
  have "Get_scan objs rm n (pre @ post) 0 ?long = Get_scan objs rm n pre 0 ?long"
    by (simp add: Get_scan_append Get_scan_stop [OF stop])
  also have "\<dots> = (Get_scan objs rm n pre 0 ?short)
      \<lparr>results := results (Get_scan objs rm n pre 0 ?short) @ replicate (length post) None\<rparr>"
    by (rule Get_scan_results_append) simp
  finally show ?thesis by (simp add: replicate_add)
qed

lemma Get_begin_returns_unregistered:
  "Get_begin ids n rm res0 s = Inr (Returned st res, s') \<Longrightarrow>
   st = OK \<and> object_get_requests s' = object_get_requests s \<and>
   request_heap s' = request_heap s \<and> next_ref s' = next_ref s"
  by (auto simp: Get_begin_def Let_def GetRequest_new_def split: if_splits sum.splits)

text \<open>
  C9. The first loop of \<^verbatim>\<open>Get\<close> stops as soon as the found count has reached
  \<^verbatim>\<open>num_objects\<close>. When the ids \<open>pre\<close> already hold that many present ids, whatever
  follows them is not looked at: the call does what the call on \<open>pre\<close> alone does, with
  one null pointer appended for each later position, whether or not the store holds the
  later ids. The later positions are therefore not counted; the call returns OK from its
  first critical section, so no request is created or registered; and an id that occurs
  only at later positions keeps its entry in the store, also under
  \<^verbatim>\<open>remove_after_get\<close>. (With a negative \<^verbatim>\<open>num_objects\<close> both calls fail the check
  \<^verbatim>\<open>count <= num_objects\<close>.) The results vector is empty when it is passed in.
\<close>

theorem Get_scan_stops_at_num_objects:
  assumes "n \<le> int (found_count (objects s) pre)"
  shows "Get (pre @ post) n timeout_ms rm [] s = pad_results (length post) (Get pre n timeout_ms rm [] s)
     \<and> (case Get (pre @ post) n timeout_ms rm [] s of
          Inl a \<Rightarrow> a = Check_count \<and> n < 0
        | Inr (outcome, s') \<Rightarrow>
            (\<exists>res. outcome = Get_returns OK res \<and> length res = length (pre @ post) \<and>
                   (\<forall>j. length pre \<le> j \<and> j < length (pre @ post) \<longrightarrow> res ! j = None)) \<and>
            object_get_requests s' = object_get_requests s \<and>
            request_heap s' = request_heap s \<and>
            (\<forall>x. x \<notin> set pre \<longrightarrow> objects s' x = objects s x))"
proof -
  let ?short = "Get_scan (objects s) rm n pre 0
           \<lparr>results = replicate (length pre) None, count = 0, remaining_ids = [],
            ids_to_remove = []\<rparr>"
  have cnt: "count ?short = (if 0 < n then n else 0)"
    using assms by (simp add: Get_scan_count)
  have len: "length (results ?short) = length pre"
    by (simp add: Get_scan_length)
  have rem: "set (ids_to_remove ?short) \<subseteq> set pre"
    using Get_scan_ids_to_remove [of "objects s" rm n pre 0
        "\<lparr>results = replicate (length pre) None, count = 0, remaining_ids = [],
            ids_to_remove = []\<rparr>"] by simp
  have scan: "Get_scan (objects s) rm n (pre @ post) 0
           \<lparr>results = replicate (length pre + length post) None, count = 0, remaining_ids = [],
            ids_to_remove = []\<rparr> = ?short\<lparr>results := results ?short @ replicate (length post) None\<rparr>"
    using Get_scan_cutoff [OF assms, of rm post] by simp
  have short: "Get pre n timeout_ms rm [] s =
      (if n < 0 then Inl Check_count
       else Inr (Get_returns OK (results ?short),
                 s\<lparr>objects := erase_all (ids_to_remove ?short) (objects s)\<rparr>))"
    by (simp add: Get_def Get_begin_def resize_Nil Let_def cnt)
  have long: "Get (pre @ post) n timeout_ms rm [] s =
      (if n < 0 then Inl Check_count
       else Inr (Get_returns OK (results ?short @ replicate (length post) None),
                 s\<lparr>objects := erase_all (ids_to_remove ?short) (objects s)\<rparr>))"
    by (simp add: Get_def Get_begin_def resize_Nil Let_def scan cnt)
  have absent: "\<forall>j. length pre \<le> j \<and> j < length (pre @ post) \<longrightarrow>
      (results ?short @ replicate (length post) None) ! j = None"
    by (auto simp: nth_append len)
  have kept: "\<forall>x. x \<notin> set pre \<longrightarrow> erase_all (ids_to_remove ?short) (objects s) x = objects s x"
    using rem by (auto simp: erase_all_apply)
  show ?thesis
    using absent kept by (simp add: long short pad_results_def len)
qed

theorem Get_scan_stops_at_num_objects_witness:
  "1 \<le> int (found_count (objects store_with_A_B) [id_A]) \<and>
   Get ([id_A] @ [id_B]) 1 (-1) True [] store_with_A_B =
     pad_results (length [id_B]) (Get [id_A] 1 (-1) True [] store_with_A_B) \<and>
   Get [id_A] 1 (-1) True [] store_with_A_B =
     Inr (Get_returns OK [Some obj_v], store_with_A_B\<lparr>objects := [id_B \<mapsto> obj_v]\<rparr>)"
proof -
  have h: "1 \<le> int (found_count (objects store_with_A_B) [id_A])"
    by (simp add: store_with_A_B_def)
  have g: "Get [id_A] 1 (-1) True [] store_with_A_B =
     Inr (Get_returns OK [Some obj_v], store_with_A_B\<lparr>objects := [id_B \<mapsto> obj_v]\<rparr>)"
    by (simp add: Get_def Get_begin_def resize_def store_with_A_B_def id_A_def id_B_def
          CoreWorkerMemoryStore_new_def fun_upd_twist)
  from Get_scan_stops_at_num_objects [OF h, of "[id_B]" "-1" True] h g show ?thesis
    by simp
qed

subsection \<open>GetOrPromoteToPlasma\<close>

text \<open>
  C7. \<^verbatim>\<open>GetOrPromoteToPlasma\<close> by cases: an id that is present with an object that is not
  an in-plasma error yields that object and leaves the store as it is; an id that is
  present with an in-plasma error yields nothing and leaves the store as it is; an absent
  id is added to \<^verbatim>\<open>promoted_to_plasma\<close> (nothing else changes) and yields nothing, and
  the call aborts when no plasma callback was configured.
\<close>

theorem GetOrPromoteToPlasma_cases:
  "(objects s object_id = Some obj \<and> \<not> IsInPlasmaError obj \<longrightarrow>
      GetOrPromoteToPlasma object_id s = Inr (Some obj, s)) \<and>
   (objects s object_id = Some obj \<and> IsInPlasmaError obj \<longrightarrow>
      GetOrPromoteToPlasma object_id s = Inr (None, s)) \<and>
   (objects s object_id = None \<and> store_in_plasma s \<noteq> None \<longrightarrow>
      GetOrPromoteToPlasma object_id s =
        Inr (None, s\<lparr>promoted_to_plasma := insert object_id (promoted_to_plasma s)\<rparr>)) \<and>
   (objects s object_id = None \<and> store_in_plasma s = None \<longrightarrow>
      GetOrPromoteToPlasma object_id s = Inl Check_store_in_plasma)"
  by (simp add: GetOrPromoteToPlasma_def)

theorem GetOrPromoteToPlasma_cases_witness:
  "(objects store_with_A id_A = Some obj_v \<and> \<not> IsInPlasmaError obj_v \<and>
      GetOrPromoteToPlasma id_A store_with_A = Inr (Some obj_v, store_with_A)) \<and>
   (objects store_with_plasma_error id_A = Some (failure_object OBJECT_IN_PLASMA) \<and>
      IsInPlasmaError (failure_object OBJECT_IN_PLASMA) \<and>
      GetOrPromoteToPlasma id_A store_with_plasma_error = Inr (None, store_with_plasma_error)) \<and>
   (objects (CoreWorkerMemoryStore_new (Some ())) id_A = None \<and>
      store_in_plasma (CoreWorkerMemoryStore_new (Some ())) \<noteq> None \<and>
      GetOrPromoteToPlasma id_A (CoreWorkerMemoryStore_new (Some ())) =
        Inr (None, (CoreWorkerMemoryStore_new (Some ()))\<lparr>promoted_to_plasma := {id_A}\<rparr>)) \<and>
   (objects (CoreWorkerMemoryStore_new None) id_A = None \<and>
      store_in_plasma (CoreWorkerMemoryStore_new None) = None \<and>
      GetOrPromoteToPlasma id_A (CoreWorkerMemoryStore_new None) = Inl Check_store_in_plasma)"
  using GetOrPromoteToPlasma_cases [of store_with_A id_A obj_v]
    GetOrPromoteToPlasma_cases [of store_with_plasma_error id_A "failure_object OBJECT_IN_PLASMA"]
    GetOrPromoteToPlasma_cases [of "CoreWorkerMemoryStore_new (Some ())" id_A]
    GetOrPromoteToPlasma_cases [of "CoreWorkerMemoryStore_new None" id_A]
  by (simp add: store_with_A_def store_with_plasma_error_def CoreWorkerMemoryStore_new_def
        IsInPlasmaError_def obj_v_def failure_object_def RayObject_new_def)

subsection \<open>Duplicate ids in Get\<close>

lemma Get_populate_nth:
  "length ids = length rs \<Longrightarrow> j < length rs \<Longrightarrow>
   Get_populate g ids rs ! j = (if rs ! j = None then GetRequest_Get (ids ! j) g else rs ! j)"
proof (induction ids rs arbitrary: j rule: list_induct2)
  case Nil
  then show ?case by simp
next
  case (Cons x xs y ys)
  then show ?case by (cases j) simp_all
qed

lemma Get_begin_progress:
  assumes "Get_begin ids n rm [] s = Inr (p, s')"
  defines "st \<equiv> Get_scan (objects s) rm n ids 0
                 \<lparr>results = replicate (length ids) None, count = 0,
                  remaining_ids = [], ids_to_remove = []\<rparr>"
  shows "p = Returned OK (results st) \<or> (\<exists>r. p = Waiting r (results st) \<and> count st < n)"
  using assms
  by (auto simp: Get_begin_def resize_Nil Let_def split: if_splits sum.splits)

lemma Get_scan_result0:
  assumes "j < length ids"
  shows "results (Get_scan objs rm n ids 0
                 \<lparr>results = replicate (length ids) None, count = 0,
                  remaining_ids = [], ids_to_remove = []\<rparr>) ! j =
         (if int (found_count objs (take j ids)) < n then objs (ids ! j) else None)"
  using Get_scan_result_at [of 0 ids "replicate (length ids) None" j objs rm n 0 "[]" "[]"] assms
  by (simp split: option.splits)

text \<open>
  C3 (as amended). In a call of \<^verbatim>\<open>Get\<close> with \<^verbatim>\<open>remove_after_get = true\<close> whose
  ids hold the same id at the positions \<open>i < j\<close>, where the store holds the id when
  the call starts, position \<open>j\<close> of the results holds the stored object whenever fewer
  than \<^verbatim>\<open>num_objects\<close> of the ids before \<open>j\<close> were found, and is absent
  otherwise: the removal is deferred until the loop is over, so the second occurrence is
  still found. The results vector is empty when it is passed in.
\<close>

theorem Get_duplicate_id:
  assumes "Get_begin ids n True [] s = Inr (p, s')"
    and "i < j" and "j < length ids" and "ids ! i = ids ! j"
    and "objects s (ids ! i) = Some v"
  shows "final_results ids p g ! j =
           (if int (found_count (objects s) (take j ids)) < n then Some v else None)"
proof -
  let ?st = "Get_scan (objects s) True n ids 0
                 \<lparr>results = replicate (length ids) None, count = 0,
                  remaining_ids = [], ids_to_remove = []\<rparr>"
  have at_j: "results ?st ! j =
      (if int (found_count (objects s) (take j ids)) < n then Some v else None)"
    using Get_scan_result0 [OF assms(3), of "objects s" True n] assms(4,5) by simp
  from Get_begin_progress [OF assms(1)]
  consider "p = Returned OK (results ?st)" | r where "p = Waiting r (results ?st)" "count ?st < n"
    by blast
  then show ?thesis
  proof cases
    case 1
    with at_j show ?thesis by (simp add: final_results_def)
  next
    case 2
    have "count ?st = (if 0 < n then min n (int (found_count (objects s) ids)) else 0)"
      by (simp add: Get_scan_count)
    with 2(2) have "int (found_count (objects s) ids) < n"
      by (simp split: if_splits)
    with found_count_take_le [of "objects s" j ids]
    have "int (found_count (objects s) (take j ids)) < n" by linarith
    with at_j have "results ?st ! j = Some v" by simp
    with 2(1) assms(3) show ?thesis
      using \<open>int (found_count (objects s) (take j ids)) < n\<close>
      by (simp add: final_results_def Get_populate_nth Get_scan_length)
  qed
qed

theorem Get_duplicate_id_witness:
  "Get_begin [id_A, id_A] 2 True [] store_with_A =
     Inr (Returned OK [Some obj_v, Some obj_v], CoreWorkerMemoryStore_new None) \<and>
   (0::nat) < 1 \<and> 1 < length [id_A, id_A] \<and> [id_A, id_A] ! 0 = [id_A, id_A] ! 1 \<and>
   objects store_with_A ([id_A, id_A] ! 0) = Some obj_v \<and>
   final_results [id_A, id_A] (Returned OK [Some obj_v, Some obj_v]) example_request ! 1 = Some obj_v"
proof -
  have b: "Get_begin [id_A, id_A] 2 True [] store_with_A =
     Inr (Returned OK [Some obj_v, Some obj_v], CoreWorkerMemoryStore_new None)"
    by (simp add: Get_begin_def resize_def store_with_A_def CoreWorkerMemoryStore_new_def)
  have o: "objects store_with_A ([id_A, id_A] ! 0) = Some obj_v"
    by (simp add: store_with_A_def)
  from Get_duplicate_id [OF b, of 0 1 obj_v example_request] b o show ?thesis
    by simp
qed

text \<open>
  C3 as stated fails: with the id at both positions and \<^verbatim>\<open>num_objects = 2\<close> the
  second position is filled.
\<close>

theorem Get_duplicate_id_counterexample:
  "objects store_with_A id_A = Some obj_v \<and>
   Get [id_A, id_A] 2 (-1) True [] store_with_A =
     Inr (Get_returns OK [Some obj_v, Some obj_v], CoreWorkerMemoryStore_new None) \<and>
   [Some obj_v, Some obj_v] ! 1 \<noteq> None"
  by (simp add: Get_def Get_begin_def resize_def store_with_A_def CoreWorkerMemoryStore_new_def)

subsection \<open>Put followed by Get\<close>

lemma GetRequest_Set_flag [simp]:
  "gr_remove_after_get (GetRequest_Set object_id e g) = gr_remove_after_get g"
  by (simp add: GetRequest_Set_def Let_def)

lemma Put_notify_keeps_flag:
  "(\<forall>r \<in> set rs. \<forall>g. heap r = Some g \<longrightarrow> \<not> gr_remove_after_get g) \<Longrightarrow>
   fst (Put_notify object_id e rs (b, evs, heap)) = b"
proof (induction rs arbitrary: b evs heap)
  case Nil
  then show ?case by simp
next
  case (Cons r rs)
  show ?case
  proof (cases "heap r")
    case None
    with Cons show ?thesis by simp
  next
    case (Some g)
    with Cons.prems have flag: "\<not> gr_remove_after_get g" by simp
    have "\<forall>r' \<in> set rs. \<forall>g'. (heap(r \<mapsto> GetRequest_Set object_id e g)) r' = Some g' \<longrightarrow>
            \<not> gr_remove_after_get g'"
      using Cons.prems flag by auto
    note ih = Cons.IH [OF this]
    from Some flag show ?thesis
      by (simp add: ShouldRemoveObjects_def ih)
  qed
qed

lemma Put_OK_stores:
  assumes "Put object_id v s = Inr (OK, evs, s')" and "no_removing_waiter s object_id"
  shows "objects s' object_id = Some v"
proof (cases "object_get_requests s object_id")
  case None
  with assms(1) show ?thesis
    by (auto simp: Put_def Let_def RayObject_new_def split: if_splits option.splits)
next
  case (Some rs)
  from assms(2) Some
  have "\<forall>r \<in> set rs. \<forall>g. request_heap s r = Some g \<longrightarrow> \<not> gr_remove_after_get g"
    by (auto simp: no_removing_waiter_def)
  from Put_notify_keeps_flag [OF this, of object_id "RayObject_new (data v) (metadata v) True" True "[]"]
  have "fst (Put_notify object_id (RayObject_new (data v) (metadata v) True) rs
               (True, [], request_heap s))" by simp
  with assms(1) Some show ?thesis
    by (auto simp: Put_def Let_def RayObject_new_def split: if_splits option.splits prod.splits)
qed

lemma resize_one: "(resize results0 (Suc 0))[0 := x] = [x]"
  by (cases results0) (simp_all add: resize_def)

lemma Get_single_present:
  "objects s object_id = Some v \<Longrightarrow>
   Get [object_id] 1 timeout_ms False results0 s = Inr (Get_returns OK [Some v], s)"
  by (simp add: Get_def Get_begin_def resize_one)

text \<open>
  C1 (as amended). For an object \<open>v\<close> and an id under which no registered request
  removes after get, a \<^verbatim>\<open>Put(id, v)\<close> that returns OK (so the id is a direct-call id
  that the store did not hold), followed by \<^verbatim>\<open>Get([id], 1, -1, false)\<close>, returns OK
  with a results vector of length one whose entry is \<open>v\<close>, and leaves the store as
  \<^verbatim>\<open>Put\<close> left it, whatever the results vector held when it was passed in.
\<close>

theorem Put_then_Get:
  assumes "Put object_id v s = Inr (OK, evs, s')" and "no_removing_waiter s object_id"
  shows "Get [object_id] 1 (-1) False results0 s' = Inr (Get_returns OK [Some v], s')"
  using Get_single_present [OF Put_OK_stores [OF assms]] .

theorem Put_then_Get_witness:
  "Put id_A obj_v (CoreWorkerMemoryStore_new None) = Inr (OK, [], store_with_A) \<and>
   no_removing_waiter (CoreWorkerMemoryStore_new None) id_A \<and>
   Get [id_A] 1 (-1) False [] store_with_A = Inr (Get_returns OK [Some obj_v], store_with_A)"
proof -
  have p: "Put id_A obj_v (CoreWorkerMemoryStore_new None) = Inr (OK, [], store_with_A)"
    by (simp add: Put_def IsDirectCallType_def id_A_def CoreWorkerMemoryStore_new_def
          store_with_A_def RayObject_new_def obj_v_def)
  have w: "no_removing_waiter (CoreWorkerMemoryStore_new None) id_A"
    by (simp add: no_removing_waiter_def CoreWorkerMemoryStore_new_def)
  from Put_then_Get [OF p w, of "[]"] p w show ?thesis by simp
qed

text \<open>
  C1 as stated fails when a reader that removes after get waits for the id: \<^verbatim>\<open>Put\<close>
  returns OK and hands the object to that reader without storing it, and the
  \<^verbatim>\<open>Get\<close> that follows registers a request of its own and waits.
\<close>

theorem Put_then_Get_counterexample:
  "Get_begin [id_A] 1 True [] (CoreWorkerMemoryStore_new None) =
     Inr (Waiting 0 [None], store_removing_waiter) \<and>
   IsDirectCallType id_A \<and> objects store_removing_waiter id_A = None \<and>
   Put id_A obj_v store_removing_waiter =
     Inr (OK, [SetCalled 0 id_A obj_v], store_removing_waiter_served) \<and>
   outcome_of (Get [id_A] 1 (-1) False [] store_removing_waiter_served) = Inr Get_blocks"
  by (simp add: Get_def Get_begin_def resize_def GetRequest_new_def GetRequest_Wait_def
        Put_def IsDirectCallType_def id_A_def CoreWorkerMemoryStore_new_def obj_v_def
        store_removing_waiter_def store_removing_waiter_served_def removing_request_def
        RayObject_new_def GetRequest_Set_def emplace_def ShouldRemoveObjects_def
        outcome_of_def Let_def)

subsection \<open>Invariants of the reachable stores\<close>

lemma Put_notify_heap:
  assumes "\<And>g. P g \<Longrightarrow> P (GetRequest_Set object_id e g)"
  shows "(\<forall>r g. heap r = Some g \<longrightarrow> P g) \<Longrightarrow>
         Put_notify object_id e rs (b, evs, heap) = (b', evs', heap') \<Longrightarrow>
         (\<forall>r g. heap' r = Some g \<longrightarrow> P g) \<and> (\<forall>r. heap' r = None \<longleftrightarrow> heap r = None)"
proof (induction rs arbitrary: b evs heap)
  case Nil
  then show ?case by simp
next
  case (Cons r rs)
  show ?case
  proof (cases "heap r")
    case None
    with Cons show ?thesis by simp
  next
    case (Some g)
    let ?heap = "heap(r \<mapsto> GetRequest_Set object_id e g)"
    have ok: "\<forall>r g. ?heap r = Some g \<longrightarrow> P g"
      using Cons.prems(1) Some assms by auto
    have dom: "\<forall>r. ?heap r = None \<longleftrightarrow> heap r = None" using Some by auto
    from Cons.prems(2) Some obtain b1 evs1 where
      "Put_notify object_id e rs (b1, evs1, ?heap) = (b', evs', heap')"
      by simp
    from Cons.IH [OF ok this]
    have "(\<forall>r g. heap' r = Some g \<longrightarrow> P g) \<and> (\<forall>r. heap' r = None \<longleftrightarrow> ?heap r = None)" .
    with dom show ?thesis by metis
  qed
qed

lemma Put_effect_on_store:
  assumes "Put object_id obj s = Inr (st, evs, s')"
  shows "object_get_requests s' = object_get_requests s"
    and "request_heap s' r = None \<longleftrightarrow> request_heap s r = None"
    and "(\<And>g. P g \<Longrightarrow> P (GetRequest_Set object_id (RayObject_new (data obj) (metadata obj) True) g))
         \<Longrightarrow> (\<forall>r g. request_heap s r = Some g \<longrightarrow> P g)
         \<Longrightarrow> (\<forall>r g. request_heap s' r = Some g \<longrightarrow> P g)"
    and "objects s' x = Some v \<Longrightarrow> objects s x = Some v \<or> (x = object_id \<and> IsDirectCallType object_id)"
proof -
  let ?e = "RayObject_new (data obj) (metadata obj) True"
  obtain b' evs' heap' where n: "Put_notify object_id ?e
       (case object_get_requests s object_id of None \<Rightarrow> [] | Some rs \<Rightarrow> rs)
       (True, [], request_heap s) = (b', evs', heap')"
    by (cases "Put_notify object_id ?e
       (case object_get_requests s object_id of None \<Rightarrow> [] | Some rs \<Rightarrow> rs)
       (True, [], request_heap s)") auto
  have heap: "request_heap s' = request_heap s \<or> request_heap s' = heap'"
    using assms n
    by (auto simp: Put_def Let_def split: if_splits option.splits prod.splits)
  show "object_get_requests s' = object_get_requests s"
    using assms
    by (auto simp: Put_def Let_def split: if_splits option.splits prod.splits)
  show "request_heap s' r = None \<longleftrightarrow> request_heap s r = None"
    using heap Put_notify_heap [of "\<lambda>g. True", OF _ _ n] by auto
  show "\<forall>r g. request_heap s' r = Some g \<longrightarrow> P g"
    if "\<And>g. P g \<Longrightarrow> P (GetRequest_Set object_id ?e g)"
      and "\<forall>r g. request_heap s r = Some g \<longrightarrow> P g"
    using heap Put_notify_heap [of P, OF that(1) that(2) n] that(2) by auto
  show "objects s x = Some v \<or> (x = object_id \<and> IsDirectCallType object_id)"
    if "objects s' x = Some v"
    using assms that
    by (auto simp: Put_def Let_def split: if_splits option.splits prod.splits)
qed

lemma Delete_waiters [simp]:
  "object_get_requests (Delete ids s) = object_get_requests s"
  "request_heap (Delete ids s) = request_heap s"
  by (induction ids arbitrary: s) simp_all

lemma Delete_objects: "objects (Delete ids s) = erase_all ids (objects s)"
  by (induction ids arbitrary: s) simp_all

lemma register_request_members:
  "register_request r ids m object_id = Some rs \<Longrightarrow> x \<in> set rs \<Longrightarrow>
   x = r \<or> (\<exists>rs0. m object_id = Some rs0 \<and> x \<in> set rs0)"
proof (induction ids arbitrary: m rs)
  case Nil
  then show ?case by simp
next
  case (Cons a ids)
  from Cons.IH [OF Cons.prems [unfolded register_request.simps]]
  show ?case by (auto split: if_splits option.splits)
qed

lemma deregister_request_members:
  "deregister_request r ids m object_id = Some rs \<Longrightarrow> x \<in> set rs \<Longrightarrow>
   \<exists>rs0. m object_id = Some rs0 \<and> x \<in> set rs0"
proof (induction ids arbitrary: m rs)
  case Nil
  then show ?case by simp
next
  case (Cons a ids)
  from Cons.IH [OF Cons.prems [unfolded deregister_request.simps]]
  show ?case by (auto split: if_splits option.splits dest: set_remove1_subset [THEN subsetD])
qed

lemma Get_begin_effect_on_store:
  assumes "Get_begin ids n rm res0 s = Inr (p, s')"
  shows "objects s' x = Some v \<Longrightarrow> objects s x = Some v"
    and "request_heap s' r = Some g \<Longrightarrow>
         request_heap s r = Some g \<or> (gr_objects g = [] \<and> \<not> gr_is_ready g)"
    and "request_heap s r \<noteq> None \<Longrightarrow> request_heap s' r \<noteq> None"
    and "object_get_requests s' object_id = Some rs \<Longrightarrow> r \<in> set rs \<Longrightarrow>
         request_heap s' r \<noteq> None \<or>
         (\<exists>rs0. object_get_requests s object_id = Some rs0 \<and> r \<in> set rs0)"
proof -
  show "objects s x = Some v" if "objects s' x = Some v"
    using assms that
    by (auto simp: Get_begin_def Let_def erase_all_apply split: if_splits sum.splits)
  show "request_heap s r = Some g \<or> (gr_objects g = [] \<and> \<not> gr_is_ready g)"
    if "request_heap s' r = Some g"
    using assms that
    by (auto simp: Get_begin_def Let_def GetRequest_new_def split: if_splits sum.splits)
  show "request_heap s' r \<noteq> None" if "request_heap s r \<noteq> None"
    using assms that
    by (auto simp: Get_begin_def Let_def split: if_splits sum.splits)
  show "request_heap s' r \<noteq> None \<or>
         (\<exists>rs0. object_get_requests s object_id = Some rs0 \<and> r \<in> set rs0)"
    if "object_get_requests s' object_id = Some rs" and "r \<in> set rs"
    using assms that
    by (auto simp: Get_begin_def Let_def split: if_splits sum.splits
             dest!: register_request_members)
qed

lemma GetRequest_Set_sizes_ok:
  "request_sizes_ok g \<Longrightarrow> request_sizes_ok (GetRequest_Set object_id e g)"
  by (auto simp: request_sizes_ok_def GetRequest_Set_def Let_def emplace_def)

lemma store_invariantI:
  assumes "\<And>r g. request_heap s r = Some g \<Longrightarrow> request_sizes_ok g"
    and "\<And>object_id rs r. object_get_requests s object_id = Some rs \<Longrightarrow> r \<in> set rs \<Longrightarrow>
         request_heap s r \<noteq> None"
    and "\<And>object_id v. objects s object_id = Some v \<Longrightarrow> IsDirectCallType object_id"
  shows "store_invariant s"
  using assms unfolding store_invariant_def by blast

lemma store_invariantD:
  assumes "store_invariant s"
  shows "request_heap s r = Some g \<Longrightarrow> request_sizes_ok g"
    and "object_get_requests s object_id = Some rs \<Longrightarrow> r \<in> set rs \<Longrightarrow>
         request_heap s r \<noteq> None"
    and "objects s object_id = Some v \<Longrightarrow> IsDirectCallType object_id"
  using assms unfolding store_invariant_def by blast+

lemma reachable_store_invariant: "ims_reachable s \<Longrightarrow> store_invariant s"
proof (induction rule: ims_reachable.induct)
  case (ims_new sip)
  show ?case by (simp add: store_invariant_def CoreWorkerMemoryStore_new_def)
next
  case (ims_Put s object_id obj st evs s')
  note e = Put_effect_on_store [OF ims_Put.hyps(2)]
  note d = store_invariantD [OF ims_Put.IH]
  show ?case
  proof (rule store_invariantI)
    fix r g assume "request_heap s' r = Some g"
    with e(3) [of request_sizes_ok, OF GetRequest_Set_sizes_ok] d(1)
    show "request_sizes_ok g" by blast
  next
    fix x rs r assume "object_get_requests s' x = Some rs" "r \<in> set rs"
    with d(2) [of x rs r] e(1) have "request_heap s r \<noteq> None" by simp
    with e(2) [of r] show "request_heap s' r \<noteq> None" by simp
  next
    fix x v assume "objects s' x = Some v"
    from e(4) [OF this] d(3) [of x v] show "IsDirectCallType x" by blast
  qed
next
  case (ims_GetAsync s object_id cb evs s')
  note d = store_invariantD [OF ims_GetAsync.IH]
  from ims_GetAsync.hyps(2)
  have "objects s' = objects s \<and> request_heap s' = request_heap s \<and>
        object_get_requests s' = object_get_requests s"
    by (auto simp: GetAsync_def split: option.splits)
  with d show ?case by (intro store_invariantI) simp_all
next
  case (ims_GetOrPromoteToPlasma s object_id res s')
  note d = store_invariantD [OF ims_GetOrPromoteToPlasma.IH]
  from ims_GetOrPromoteToPlasma.hyps(2)
  have "objects s' = objects s \<and> request_heap s' = request_heap s \<and>
        object_get_requests s' = object_get_requests s"
    by (auto simp: GetOrPromoteToPlasma_def split: option.splits if_splits)
  with d show ?case by (intro store_invariantI) simp_all
next
  case (ims_Get_begin s ids n rm res0 p s')
  note e = Get_begin_effect_on_store [OF ims_Get_begin.hyps(2)]
  note d = store_invariantD [OF ims_Get_begin.IH]
  show ?case
  proof (rule store_invariantI)
    fix r g assume "request_heap s' r = Some g"
    from e(2) [OF this] d(1) [of r g]
    show "request_sizes_ok g" by (auto simp: request_sizes_ok_def)
  next
    fix x rs r assume a: "object_get_requests s' x = Some rs" "r \<in> set rs"
    from e(4) [OF a] show "request_heap s' r \<noteq> None"
    proof
      assume "\<exists>rs0. object_get_requests s x = Some rs0 \<and> r \<in> set rs0"
      then obtain rs0 where "object_get_requests s x = Some rs0" "r \<in> set rs0" by blast
      from e(3) [OF d(2) [OF this]] show ?thesis .
    qed
  next
    fix x v assume "objects s' x = Some v"
    from d(3) [OF e(1) [OF this]] show "IsDirectCallType x" .
  qed
next
  case (ims_Get_finish s r ids res res' s')
  note d = store_invariantD [OF ims_Get_finish.IH]
  show ?case
  proof (cases "request_heap s r")
    case None
    with ims_Get_finish.hyps(2) ims_Get_finish.IH show ?thesis by (simp add: Get_finish_def)
  next
    case (Some g)
    with ims_Get_finish.hyps(2) have s': "s' = s\<lparr>object_get_requests :=
               deregister_request r (gr_object_ids g) (object_get_requests s)\<rparr>"
      by (simp add: Get_finish_def)
    show ?thesis
    proof (rule store_invariantI)
      fix r' g' assume "request_heap s' r' = Some g'"
      with d(1) [of r' g'] show "request_sizes_ok g'" by (simp add: s')
    next
      fix x rs r' assume a: "object_get_requests s' x = Some rs" "r' \<in> set rs"
      from a(1) have "deregister_request r (gr_object_ids g) (object_get_requests s) x = Some rs"
        by (simp add: s')
      from deregister_request_members [OF this a(2)] obtain rs0 where
        "object_get_requests s x = Some rs0" "r' \<in> set rs0" by blast
      from d(2) [OF this] show "request_heap s' r' \<noteq> None" by (simp add: s')
    next
      fix x v assume "objects s' x = Some v"
      with d(3) [of x v] show "IsDirectCallType x" by (simp add: s')
    qed
  qed
next
  case (ims_Delete s ids)
  note d = store_invariantD [OF ims_Delete.IH]
  show ?case
  proof (rule store_invariantI)
    fix r g assume "request_heap (Delete ids s) r = Some g"
    with d(1) [of r g] show "request_sizes_ok g" by simp
  next
    fix x rs r assume "object_get_requests (Delete ids s) x = Some rs" "r \<in> set rs"
    with d(2) [of x rs r] show "request_heap (Delete ids s) r \<noteq> None" by simp
  next
    fix x v assume "objects (Delete ids s) x = Some v"
    with d(3) [of x v] show "IsDirectCallType x"
      by (simp add: Delete_objects erase_all_apply split: if_splits)
  qed
qed


subsection \<open>Put of an id that the store holds\<close>

text \<open>
  C4. In a reachable store, \<^verbatim>\<open>Put(id, object)\<close> for an id that is present returns
  \<^verbatim>\<open>ObjectExists\<close>, leaves the whole store as it is (objects, asynchronous waiters,
  registered requests and the requests themselves, promoted ids), and makes no call: no
  callback is run, no \<^verbatim>\<open>GetRequest::Set\<close> and no \<^verbatim>\<open>store_in_plasma\<close> call is made.
\<close>

theorem Put_existing:
  assumes "ims_reachable s" and "objects s object_id = Some v0"
  shows "Put object_id obj s = Inr (ObjectExists, [], s)"
proof -
  from store_invariantD(3) [OF reachable_store_invariant [OF assms(1)] assms(2)]
  have "IsDirectCallType object_id" .
  with assms(2) show ?thesis by (simp add: Put_def)
qed

theorem Put_existing_witness:
  "ims_reachable store_with_A \<and> objects store_with_A id_A = Some obj_v \<and>
   Put id_A (failure_object WORKER_DIED) store_with_A = Inr (ObjectExists, [], store_with_A)"
proof -
  have p: "Put id_A obj_v (CoreWorkerMemoryStore_new None) = Inr (OK, [], store_with_A)"
    by (simp add: Put_def IsDirectCallType_def id_A_def CoreWorkerMemoryStore_new_def
          store_with_A_def RayObject_new_def obj_v_def)
  have r: "ims_reachable store_with_A"
    by (rule ims_Put [OF ims_new p])
  have o: "objects store_with_A id_A = Some obj_v"
    by (simp add: store_with_A_def)
  from Put_existing [OF r o, of "failure_object WORKER_DIED"] r o show ?thesis by simp
qed

subsection \<open>The sizes of registered requests\<close>

lemma GetRequest_Set_idem:
  "GetRequest_Set object_id e (GetRequest_Set object_id e g) = GetRequest_Set object_id e g"
proof (cases "gr_is_ready g")
  case True
  then show ?thesis by (simp add: GetRequest_Set_def)
next
  case False
  show ?thesis
  proof (cases "object_id \<in> fst ` set (gr_objects g)")
    case True
    with False show ?thesis by (simp add: GetRequest_Set_def Let_def emplace_def)
  next
    case absent: False
    with False show ?thesis by (simp add: GetRequest_Set_def Let_def emplace_def)
  qed
qed

lemma Put_notify_heap_exact:
  "Put_notify object_id e rs (b, evs, heap) = (b', evs', heap') \<Longrightarrow>
   heap' r = (if r \<in> set rs then map_option (GetRequest_Set object_id e) (heap r) else heap r)"
proof (induction rs arbitrary: b evs heap)
  case Nil
  then show ?case by simp
next
  case (Cons r0 rs)
  show ?case
  proof (cases "heap r0")
    case None
    with Cons.prems have "Put_notify object_id e rs (b, evs, heap) = (b', evs', heap')"
      by simp
    from Cons.IH [OF this] None show ?thesis by auto
  next
    case (Some g0)
    with Cons.prems obtain b1 where
      "Put_notify object_id e rs
         (b1, evs @ [SetCalled r0 object_id e], heap(r0 \<mapsto> GetRequest_Set object_id e g0)) =
       (b', evs', heap')"
      by simp
    from Cons.IH [OF this] Some show ?thesis
      by (auto simp: GetRequest_Set_idem)
  qed
qed

lemma Put_OK_heap:
  assumes "Put object_id obj s = Inr (OK, evs, s')"
    and "object_get_requests s object_id = Some rs"
  shows "request_heap s' r =
           (if r \<in> set rs
            then map_option (GetRequest_Set object_id (RayObject_new (data obj) (metadata obj) True))
                   (request_heap s r)
            else request_heap s r)"
proof -
  let ?e = "RayObject_new (data obj) (metadata obj) True"
  obtain b' evs' heap' where
    n: "Put_notify object_id ?e rs (True, [], request_heap s) = (b', evs', heap')"
    by (cases "Put_notify object_id ?e rs (True, [], request_heap s)") auto
  have "request_heap s' = heap'"
    using assms n
    by (auto simp: Put_def Let_def split: if_splits option.splits prod.splits)
  with Put_notify_heap_exact [OF n, of r] show ?thesis by simp
qed

lemma GetRequest_Set_last:
  "\<not> gr_is_ready g \<Longrightarrow> object_id \<notin> fst ` set (gr_objects g) \<Longrightarrow>
   Suc (length (gr_objects g)) = gr_num_objects g \<Longrightarrow>
   GetRequest_Set object_id e g = g\<lparr>gr_objects := gr_objects g @ [(object_id, e)], gr_is_ready := True\<rparr>"
  by (simp add: GetRequest_Set_def Let_def emplace_def)

text \<open>
  C2 (as amended). In every reachable store, every reference registered in
  \<^verbatim>\<open>object_get_requests_\<close> points to a request that holds exactly
  \<^verbatim>\<open>num_objects_\<close> objects when it is ready and, when it needs at least one object,
  at most \<^verbatim>\<open>num_objects_\<close> objects, and fewer while it is not ready. A \<^verbatim>\<open>Put\<close>
  leaves the registrations as they are. In particular, right after a \<^verbatim>\<open>Put\<close> whose
  \<^verbatim>\<open>Set\<close> call delivers the last object that the request needs (the request was not
  ready, did not hold the id, and lacked one object), the request is still registered,
  it is ready, and it holds exactly \<^verbatim>\<open>num_objects_\<close> objects, not fewer: the
  objects it held and the one put.
\<close>

theorem registered_request_sizes:
  assumes "ims_reachable s" and "object_get_requests s object_id = Some rs" and "r \<in> set rs"
  shows "(\<exists>g. request_heap s r = Some g \<and> request_sizes_ok g) \<and>
         (Put x obj s = Inr (st, evs, s') \<longrightarrow>
            object_get_requests s' object_id = Some rs \<and>
            (\<exists>g'. request_heap s' r = Some g' \<and> request_sizes_ok g')) \<and>
         (Put object_id obj2 s = Inr (OK, evs2, s2) \<and> request_heap s r = Some g \<and>
          \<not> gr_is_ready g \<and> object_id \<notin> fst ` set (gr_objects g) \<and>
          Suc (length (gr_objects g)) = gr_num_objects g \<longrightarrow>
            object_get_requests s2 object_id = Some rs \<and>
            request_heap s2 r =
              Some (g\<lparr>gr_objects := gr_objects g @ [(object_id, obj2)], gr_is_ready := True\<rparr>) \<and>
            (\<exists>g'. request_heap s2 r = Some g' \<and> gr_is_ready g' \<and>
                  length (gr_objects g') = gr_num_objects g' \<and>
                  \<not> length (gr_objects g') < gr_num_objects g'))"
proof -
  have live: "\<exists>g. request_heap t r = Some g \<and> request_sizes_ok g"
    if "ims_reachable t" and "object_get_requests t object_id = Some rs" for t
  proof -
    note d = store_invariantD [OF reachable_store_invariant [OF that(1)]]
    from d(2) [OF that(2) assms(3)] obtain g where "request_heap t r = Some g" by blast
    with d(1) [OF this] show ?thesis by blast
  qed
  have any: "object_get_requests s' object_id = Some rs \<and>
        (\<exists>g'. request_heap s' r = Some g' \<and> request_sizes_ok g')"
    if p: "Put x obj s = Inr (st, evs, s')"
  proof -
    have "object_get_requests s' object_id = Some rs"
      using Put_effect_on_store(1) [OF p] assms(2) by simp
    with live [OF ims_Put [OF assms(1) p]] show ?thesis by simp
  qed
  have last: "object_get_requests s2 object_id = Some rs \<and>
            request_heap s2 r =
              Some (g\<lparr>gr_objects := gr_objects g @ [(object_id, obj2)], gr_is_ready := True\<rparr>) \<and>
            (\<exists>g'. request_heap s2 r = Some g' \<and> gr_is_ready g' \<and>
                  length (gr_objects g') = gr_num_objects g' \<and>
                  \<not> length (gr_objects g') < gr_num_objects g')"
    if p: "Put object_id obj2 s = Inr (OK, evs2, s2)" and g: "request_heap s r = Some g"
      and n: "\<not> gr_is_ready g" "object_id \<notin> fst ` set (gr_objects g)"
        "Suc (length (gr_objects g)) = gr_num_objects g"
  proof -
    have reg: "object_get_requests s2 object_id = Some rs"
      using Put_effect_on_store(1) [OF p] assms(2) by simp
    have copy: "RayObject_new (data obj2) (metadata obj2) True = obj2"
      by (simp add: RayObject_new_def)
    have "request_heap s2 r =
        Some (g\<lparr>gr_objects := gr_objects g @ [(object_id, obj2)], gr_is_ready := True\<rparr>)"
      using Put_OK_heap [OF p assms(2), of r] assms(3) g GetRequest_Set_last [OF n, of obj2]
      by (simp add: copy)
    with reg n(3) show ?thesis by simp
  qed
  from live [OF assms(1,2)] any last show ?thesis by blast
qed

theorem registered_request_sizes_witness:
  "ims_reachable store_waiter \<and> object_get_requests store_waiter id_A = Some [0] \<and>
   0 \<in> set [0::nat] \<and>
   request_heap store_waiter 0 = Some waiting_request \<and> request_sizes_ok waiting_request \<and>
   \<not> gr_is_ready waiting_request \<and> id_A \<notin> fst ` set (gr_objects waiting_request) \<and>
   Suc (length (gr_objects waiting_request)) = gr_num_objects waiting_request \<and>
   Put id_A obj_v store_waiter = Inr (OK, [SetCalled 0 id_A obj_v], store_waiter_served) \<and>
   object_get_requests store_waiter_served id_A = Some [0] \<and>
   request_heap store_waiter_served 0 = Some served_request \<and> request_sizes_ok served_request \<and>
   gr_is_ready served_request \<and>
   length (gr_objects served_request) = gr_num_objects served_request"
proof -
  have b: "Get_begin [id_A] 1 False [] (CoreWorkerMemoryStore_new None) =
             Inr (Waiting 0 [None], store_waiter)"
    by (simp add: Get_begin_def resize_def GetRequest_new_def CoreWorkerMemoryStore_new_def
          store_waiter_def waiting_request_def)
  have r: "ims_reachable store_waiter"
    by (rule ims_Get_begin [OF ims_new b])
  have w: "object_get_requests store_waiter id_A = Some [0]"
    by (simp add: store_waiter_def)
  have m: "0 \<in> set [0::nat]" by simp
  have p: "Put id_A obj_v store_waiter = Inr (OK, [SetCalled 0 id_A obj_v], store_waiter_served)"
    by (simp add: Put_def IsDirectCallType_def id_A_def CoreWorkerMemoryStore_new_def obj_v_def
          store_waiter_def store_waiter_served_def waiting_request_def served_request_def
          RayObject_new_def GetRequest_Set_def emplace_def ShouldRemoveObjects_def Let_def)
  have h: "request_heap store_waiter 0 = Some waiting_request"
    by (simp add: store_waiter_def)
  have n: "\<not> gr_is_ready waiting_request" "id_A \<notin> fst ` set (gr_objects waiting_request)"
      "Suc (length (gr_objects waiting_request)) = gr_num_objects waiting_request"
    by (simp_all add: waiting_request_def)
  have e: "waiting_request\<lparr>gr_objects := gr_objects waiting_request @ [(id_A, obj_v)],
                           gr_is_ready := True\<rparr> = served_request"
    by (simp add: served_request_def waiting_request_def)
  note t = registered_request_sizes [OF r w m, where x = id_A and obj = obj_v and st = OK
      and evs = "[SetCalled 0 id_A obj_v]" and s' = store_waiter_served and ?obj2.0 = obj_v
      and ?evs2.0 = "[SetCalled 0 id_A obj_v]" and ?s2.0 = store_waiter_served
      and g = waiting_request]
  from t p h n have
    "request_sizes_ok waiting_request \<and>
     object_get_requests store_waiter_served id_A = Some [0] \<and>
     request_heap store_waiter_served 0 = Some served_request \<and>
     (\<exists>g'. request_heap store_waiter_served 0 = Some g' \<and> request_sizes_ok g') \<and>
     (\<exists>g'. request_heap store_waiter_served 0 = Some g' \<and> gr_is_ready g' \<and>
           length (gr_objects g') = gr_num_objects g')"
    by (auto simp: e)
  with r w m p h n show ?thesis by auto
qed

text \<open>
  C2 as stated fails right after the \<^verbatim>\<open>Put\<close> that delivers the last object: the
  request is still registered and holds as many objects as it needs, not fewer.
\<close>

theorem registered_request_sizes_counterexample:
  "Get_begin [id_A] 1 False [] (CoreWorkerMemoryStore_new None) =
     Inr (Waiting 0 [None], store_waiter) \<and>
   Put id_A obj_v store_waiter = Inr (OK, [SetCalled 0 id_A obj_v], store_waiter_served) \<and>
   object_get_requests store_waiter_served id_A = Some [0] \<and>
   request_heap store_waiter_served 0 = Some served_request \<and>
   \<not> length (gr_objects served_request) < gr_num_objects served_request"
  by (simp add: Get_begin_def resize_def GetRequest_new_def
        Put_def IsDirectCallType_def id_A_def CoreWorkerMemoryStore_new_def obj_v_def
        store_waiter_def store_waiter_served_def waiting_request_def served_request_def
        RayObject_new_def GetRequest_Set_def emplace_def ShouldRemoveObjects_def Let_def)

text \<open>
  A request that needs no object: when an id that the store does not hold is repeated in
  the id vector, \<^verbatim>\<open>object_ids.size() - remaining_ids.size()\<close> counts the repetition as
  found, and the request is created with \<^verbatim>\<open>num_objects_ = 0\<close>.
\<close>

lemma Get_begin_repeated_missing_id:
  "Get_begin [id_A, id_A, id_B] 1 False [] (CoreWorkerMemoryStore_new None) =
     Inr (Waiting 0 [None, None, None],
          (CoreWorkerMemoryStore_new None)
            \<lparr>object_get_requests := [id_B \<mapsto> [0], id_A \<mapsto> [0]],
             request_heap := [0 \<mapsto> \<lparr>gr_object_ids = [id_B, id_A], gr_objects = [],
                                     gr_num_objects = 0, gr_remove_after_get = False,
                                     gr_is_ready = False\<rparr>],
             next_ref := 1\<rparr>)"
  by (simp add: Get_begin_def resize_def GetRequest_new_def CoreWorkerMemoryStore_new_def
        id_A_def id_B_def)

section \<open>Properties of the dependency resolver\<close>

lemma DoInline_loop_result:
  "DoInline_loop obj_id obj slots found =
     (inlined_args obj_id obj slots, found \<or> (\<exists>arg \<in> set slots. references_first obj_id arg))"
  by (induction slots arbitrary: found)
     (auto simp: inlined_args_def references_first_def)

text \<open>
  C8 (as amended). For every task and every resolved dependency id, the inline step
  panics (the \<^verbatim>\<open>RAY_CHECK\<close> of \<^verbatim>\<open>DoInlineObjectValue\<close> fails) exactly when the id is the
  first referenced id of no argument slot. When it is the first referenced id of one
  slot or of several, there is no panic and each of these slots is inlined.
\<close>

theorem DoInlineObjectValue_panics_iff:
  "(DoInlineObjectValue obj_id obj task = Inl Check_found \<longleftrightarrow>
      slots_referencing obj_id task = []) \<and>
   (slots_referencing obj_id task \<noteq> [] \<longrightarrow>
      DoInlineObjectValue obj_id obj task =
        Inr (task\<lparr>args := inlined_args obj_id obj (args task)\<rparr>))"
  by (auto simp: DoInlineObjectValue_def DoInline_loop_result slots_referencing_def
        references_first_def filter_empty_conv)

theorem DoInlineObjectValue_panics_iff_witness:
  "slots_referencing id_A task_no_ref = [] \<and>
   DoInlineObjectValue id_A obj_v task_no_ref = Inl Check_found \<and>
   slots_referencing id_A task_two_refs \<noteq> [] \<and>
   DoInlineObjectValue id_A obj_v task_two_refs =
     Inr (task_two_refs\<lparr>args := inlined_args id_A obj_v (args task_two_refs)\<rparr>)"
proof -
  have a: "slots_referencing id_A task_no_ref = []"
    by (simp add: slots_referencing_def task_no_ref_def id_A_def id_B_def)
  have b: "slots_referencing id_A task_two_refs \<noteq> []"
    by (simp add: slots_referencing_def task_two_refs_def)
  from DoInlineObjectValue_panics_iff [of id_A obj_v task_no_ref]
    DoInlineObjectValue_panics_iff [of id_A obj_v task_two_refs] a b
  show ?thesis by simp
qed

text \<open>
  C8 as stated fails when the id is found in more than one slot: both slots are inlined
  and the check passes.
\<close>

theorem DoInlineObjectValue_counterexample:
  "length (slots_referencing id_A task_two_refs) = 2 \<and>
   DoInlineObjectValue id_A obj_v task_two_refs =
     Inr (task_two_refs
            \<lparr>args := [\<lparr>arg_object_ids = [], arg_data = [1, 2], arg_metadata = []\<rparr>,
                      \<lparr>arg_object_ids = [], arg_data = [1, 2], arg_metadata = []\<rparr>]\<rparr>)"
  by (simp add: slots_referencing_def task_two_refs_def DoInlineObjectValue_def
        inline_arg_def IsInPlasmaError_def HasData_def HasMetadata_def obj_v_def)

section \<open>Properties of the direct task submitter\<close>

lemma Put_notify_effects:
  "Put_notify object_id e rs (b, evs, heap) = (b', evs', heap') \<Longrightarrow>
   \<forall>x \<in> set evs. is_store_effect x \<Longrightarrow> \<forall>x \<in> set evs'. is_store_effect x"
proof (induction rs arbitrary: b evs heap)
  case Nil
  then show ?case by simp
next
  case (Cons r rs)
  show ?case
  proof (cases "heap r")
    case None
    with Cons show ?thesis by simp
  next
    case (Some g)
    with Cons.prems(1) obtain b1 where
      n: "Put_notify object_id e rs
            (b1, evs @ [SetCalled r object_id e], heap(r \<mapsto> GetRequest_Set object_id e g)) =
          (b', evs', heap')"
      by simp
    have "\<forall>x \<in> set (evs @ [SetCalled r object_id e]). is_store_effect x"
      using Cons.prems(2) by simp
    from Cons.IH [OF n this] show ?thesis .
  qed
qed

lemma Put_effects:
  assumes "Put object_id obj s = Inr (st, evs, s')"
  shows "\<forall>x \<in> set evs. is_store_effect x"
proof -
  let ?e = "RayObject_new (data obj) (metadata obj) True"
  obtain b' evs' heap' where n: "Put_notify object_id ?e
       (case object_get_requests s object_id of None \<Rightarrow> [] | Some rs \<Rightarrow> rs)
       (True, [], request_heap s) = (b', evs', heap')"
    by (cases "Put_notify object_id ?e
       (case object_get_requests s object_id of None \<Rightarrow> [] | Some rs \<Rightarrow> rs)
       (True, [], request_heap s)") auto
  from Put_notify_effects [OF n] have "\<forall>x \<in> set evs'. is_store_effect x" by simp
  with assms n show ?thesis
    by (auto simp: Put_def Let_def split: if_splits option.splits prod.splits)
qed

lemma store_effect_filters:
  assumes "\<forall>x \<in> set evs. is_store_effect x"
  shows "filter is_lease_request evs = []" and "filter is_push evs = []"
    and "filter is_return_worker evs = []"
proof -
  have "\<not> is_lease_request x \<and> \<not> is_push x \<and> \<not> is_return_worker x" if "is_store_effect x" for x
    using that by (cases x) simp_all
  with assms show "filter is_lease_request evs = []" and "filter is_push evs = []"
    and "filter is_return_worker evs = []"
    by (simp_all add: filter_empty_conv)
qed

lemma TreatTaskAsFailed_from_effects:
  "TreatTaskAsFailed_from i tid n e store = Inr (evs, store') \<Longrightarrow>
   \<forall>x \<in> set evs. is_store_effect x"
proof (induction n arbitrary: i store evs)
  case 0
  then show ?case by simp
next
  case (Suc n)
  from Suc.prems obtain st evs1 store1 evs2 where
    p: "Put (ForTaskReturn tid (Suc i) DIRECT) (failure_object e) store = Inr (st, evs1, store1)"
    and r: "TreatTaskAsFailed_from (Suc i) tid n e store1 = Inr (evs2, store')"
    and evs: "evs = evs1 @ evs2"
    by (auto split: sum.splits)
  from Put_effects [OF p] Suc.IH [OF r] evs show ?case by auto
qed

lemma WriteObjectsToMemoryStore_effects:
  "WriteObjectsToMemoryStore reply store = Inr (evs, store') \<Longrightarrow>
   \<forall>x \<in> set evs. is_store_effect x"
proof (induction reply arbitrary: store evs)
  case Nil
  then show ?case by simp
next
  case (Cons a reply)
  obtain object_id obj where a: "a = (object_id, obj)" by (cases a)
  from Cons.prems a obtain st evs1 store1 evs2 where
    p: "Put object_id obj store = Inr (st, evs1, store1)"
    and r: "WriteObjectsToMemoryStore reply store1 = Inr (evs2, store')"
    and evs: "evs = evs1 @ evs2"
    by (auto split: sum.splits)
  from Put_effects [OF p] Cons.IH [OF r] evs show ?case by auto
qed

lemma RequestNewWorkerIfNeeded_step:
  assumes "RequestNewWorkerIfNeeded env spec s = Inr (evs, s')"
  shows "lease_balance s evs s'" and "worker_request_pending s'"
    and "queued_tasks s' = queued_tasks s"
    and "filter is_push evs = []" and "filter is_return_worker evs = []"
  using assms
  by (auto simp: RequestNewWorkerIfNeeded_def lease_balance_def split: if_splits)

lemma TreatTaskAsFailed_holding_mu_step:
  "TreatTaskAsFailed_holding_mu i tid n e s = Inr (evs, s') \<Longrightarrow>
   (\<forall>x \<in> set evs. is_store_effect x) \<and> queued_tasks s' = queued_tasks s \<and>
   worker_request_pending s' = worker_request_pending s \<and> client_cache s' = client_cache s"
proof (induction n arbitrary: i s evs)
  case 0
  then show ?case by auto
next
  case (Suc n)
  from Suc.prems obtain st evs1 store1 r1 evs2 where
    p: "Put (ForTaskReturn tid (Suc i) DIRECT) (failure_object e) (in_memory_store s) =
          Inr (st, evs1, store1)"
    and t: "TreatTaskAsFailed_holding_mu (Suc i) tid n e
              (s\<lparr>in_memory_store := store1, resolver := r1\<rparr>) = Inr (evs2, s')"
    and evs: "evs = evs1 @ evs2"
    by (auto split: sum.splits)
  from Put_effects [OF p] Suc.IH [OF t] evs show ?case by auto
qed

lemma PushNormalTask_step:
  assumes "PushNormalTask env addr client task s = Inr (evs, s')"
  shows "filter is_lease_request evs = []"
    and "worker_request_pending s' = worker_request_pending s"
    and "queued_tasks s' = queued_tasks s"
    and "client_cache s' = client_cache s"
    and "filter is_push evs = [PushNormalTaskRpc addr task]"
    and "filter is_return_worker evs = []"
proof -
  from assms consider "evs = [PushNormalTaskRpc addr task]" "s' = s"
    | evs1 where "evs = PushNormalTaskRpc addr task # evs1"
        "TreatTaskAsFailed_holding_mu 0 (task_id task) (num_returns task) WORKER_DIED s =
           Inr (evs1, s')"
    by (auto simp: PushNormalTask_def split: if_splits sum.splits)
  then have "(filter is_lease_request evs = [] \<and> filter is_return_worker evs = [] \<and>
              filter is_push evs = [PushNormalTaskRpc addr task]) \<and>
             worker_request_pending s' = worker_request_pending s \<and>
             queued_tasks s' = queued_tasks s \<and> client_cache s' = client_cache s"
  proof cases
    case 1
    then show ?thesis by simp
  next
    case 2
    note t = TreatTaskAsFailed_holding_mu_step [OF 2(2)]
    from t have "\<forall>x \<in> set evs1. is_store_effect x" by simp
    from store_effect_filters [OF this] t 2(1)
    show ?thesis by simp
  qed
  then show "filter is_lease_request evs = []"
    and "worker_request_pending s' = worker_request_pending s"
    and "queued_tasks s' = queued_tasks s"
    and "client_cache s' = client_cache s"
    and "filter is_push evs = [PushNormalTaskRpc addr task]"
    and "filter is_return_worker evs = []"
    by simp_all
qed

lemma lease_balance_trans:
  "lease_balance s evs1 s1 \<Longrightarrow> lease_balance s1 evs2 s2 \<Longrightarrow> lease_balance s (evs1 @ evs2) s2"
  by (auto simp: lease_balance_def split: if_splits)

lemma OnWorkerIdle_parts:
  assumes "OnWorkerIdle env addr was_error s = Inr (evs, s')"
  obtains evs1 s1 evs2 where
    "(if queued_tasks s = [] \<or> was_error
      then (if ok (ReturnWorker_status env) then Inr ([ReturnWorker (snd addr)], s)
            else Inl Check_ReturnWorker)
      else (case client_cache s addr of
              None \<Rightarrow> Inl Null_client
            | Some client \<Rightarrow>
                (case PushNormalTask env addr client (hd (queued_tasks s)) s of
                   Inl a \<Rightarrow> Inl a
                 | Inr (evs, s1) \<Rightarrow> Inr (evs, s1\<lparr>queued_tasks := tl (queued_tasks s1)\<rparr>)))) =
     Inr (evs1, s1)"
    and "(if queued_tasks s1 \<noteq> [] then RequestNewWorkerIfNeeded env (hd (queued_tasks s1)) s1
          else Inr ([], s1)) = Inr (evs2, s')"
    and "evs = evs1 @ evs2"
proof -
  let ?first = "(if queued_tasks s = [] \<or> was_error
      then (if ok (ReturnWorker_status env) then Inr ([ReturnWorker (snd addr)], s)
            else Inl Check_ReturnWorker)
      else (case client_cache s addr of
              None \<Rightarrow> Inl Null_client
            | Some client \<Rightarrow>
                (case PushNormalTask env addr client (hd (queued_tasks s)) s of
                   Inl a \<Rightarrow> Inl a
                 | Inr (evs, s1) \<Rightarrow> Inr (evs, s1\<lparr>queued_tasks := tl (queued_tasks s1)\<rparr>))))"
  from assms obtain evs1 s1 where f: "?first = Inr (evs1, s1)"
    unfolding OnWorkerIdle_def by (cases ?first) auto
  let ?rest = "(if queued_tasks s1 \<noteq> [] then RequestNewWorkerIfNeeded env (hd (queued_tasks s1)) s1
          else Inr ([], s1))"
  from assms f obtain evs2 where "?rest = Inr (evs2, s')" "evs = evs1 @ evs2"
    unfolding OnWorkerIdle_def by (cases "RequestNewWorkerIfNeeded env (hd (queued_tasks s1)) s1")
      (auto split: if_splits)
  with f that show thesis by blast
qed

lemma OnWorkerIdle_step:
  assumes "OnWorkerIdle env addr was_error s = Inr (evs, s')"
  shows "lease_balance s evs s'"
    and "worker_request_pending s \<longrightarrow> worker_request_pending s'"
proof -
  from assms obtain evs1 s1 evs2 where
    first: "(if queued_tasks s = [] \<or> was_error
      then (if ok (ReturnWorker_status env) then Inr ([ReturnWorker (snd addr)], s)
            else Inl Check_ReturnWorker)
      else (case client_cache s addr of
              None \<Rightarrow> Inl Null_client
            | Some client \<Rightarrow>
                (case PushNormalTask env addr client (hd (queued_tasks s)) s of
                   Inl a \<Rightarrow> Inl a
                 | Inr (evs, s1) \<Rightarrow> Inr (evs, s1\<lparr>queued_tasks := tl (queued_tasks s1)\<rparr>)))) =
     Inr (evs1, s1)"
    and rest: "(if queued_tasks s1 \<noteq> [] then RequestNewWorkerIfNeeded env (hd (queued_tasks s1)) s1
          else Inr ([], s1)) = Inr (evs2, s')"
    and evs: "evs = evs1 @ evs2"
    by (rule OnWorkerIdle_parts)
  from first have b1: "lease_balance s evs1 s1"
    and p1: "worker_request_pending s1 = worker_request_pending s"
    by (auto simp: lease_balance_def dest: PushNormalTask_step(1,2)
             split: if_splits option.splits sum.splits)
  from rest have b2: "lease_balance s1 evs2 s'"
    and p2: "worker_request_pending s1 \<longrightarrow> worker_request_pending s'"
    by (auto simp: lease_balance_def dest: RequestNewWorkerIfNeeded_step(1,2) split: if_splits)
  from lease_balance_trans [OF b1 b2] evs show "lease_balance s evs s'" by simp
  from p1 p2 show "worker_request_pending s \<longrightarrow> worker_request_pending s'" by simp
qed

lemma SubmitTask_on_complete_step:
  assumes "SubmitTask_on_complete env task s = Inr (evs, s')"
  shows "lease_balance s evs s'" and "worker_request_pending s'"
  using assms
  by (auto simp: SubmitTask_on_complete_def lease_balance_def
           dest: RequestNewWorkerIfNeeded_step(1,2) split: sum.splits)

lemma reachable_lease_requests:
  "dts_reachable run \<Longrightarrow>
   lease_requests_issued run =
     leases_granted run + (if worker_request_pending (submitter run) then 1 else 0)"
proof (induction rule: dts_reachable.induct)
  case (dts_new factory store)
  show ?case by (simp add: CoreWorkerDirectTaskSubmitter_new_def)
next
  case (dts_on_complete run env task_spec evs s')
  from SubmitTask_on_complete_step(1) [OF dts_on_complete.hyps(2)] dts_on_complete.IH
  show ?case by (simp add: after_step_def lease_balance_def split: if_splits)
next
  case (dts_lease_granted run addr)
  then show ?case
    by (simp add: HandleWorkerLeaseGranted_locked_def Let_def split: option.splits if_splits)
next
  case (dts_worker_idle run env addr was_error evs s')
  from OnWorkerIdle_step(1) [OF dts_worker_idle.hyps(2)] dts_worker_idle.IH
  show ?case by (simp add: after_step_def lease_balance_def split: if_splits)
next
  case (dts_store_written run store)
  then show ?case by simp
next
  case (dts_resolver_written run r)
  then show ?case by simp
qed


lemma PushNormalTask_completion_step:
  assumes "PushNormalTask_completion tid n addr env status reply s = Inr (evs, s')"
  shows "worker_request_pending s \<longrightarrow> worker_request_pending s'"
proof -
  from assms obtain evs1 s1 where i: "OnWorkerIdle env addr (\<not> ok status) s = Inr (evs1, s1)"
    and p: "worker_request_pending s' = worker_request_pending s1"
    by (auto simp: PushNormalTask_completion_def split: sum.splits)
  from OnWorkerIdle_step(2) [OF i] p show ?thesis by simp
qed

text \<open>
  C6. In every reachable state of the submitter at most one worker-lease request is
  outstanding (sent and not yet granted), and one is outstanding exactly when
  \<^verbatim>\<open>worker_request_pending_\<close> is set. \<^verbatim>\<open>RequestNewWorkerIfNeeded\<close> does nothing when the
  flag is set; when it is clear, it sends \<^verbatim>\<open>RequestWorkerLease\<close> and sets the flag. A
  flag that is set stays set through the resolver's completion callback,
  \<^verbatim>\<open>OnWorkerIdle\<close>, \<^verbatim>\<open>PushNormalTask\<close> and the completion of a push; it is cleared by
  \<^verbatim>\<open>HandleWorkerLeaseGranted\<close>.
\<close>

theorem at_most_one_outstanding_lease_request:
  assumes "dts_reachable run"
  shows "outstanding_lease_requests run \<le> 1 \<and>
     (outstanding_lease_requests run = 1 \<longleftrightarrow> worker_request_pending (submitter run)) \<and>
     (worker_request_pending (submitter run) \<longrightarrow>
        RequestNewWorkerIfNeeded env spec (submitter run) = Inr ([], submitter run)) \<and>
     (\<not> worker_request_pending (submitter run) \<and> ok (RequestWorkerLease_status env) \<longrightarrow>
        RequestNewWorkerIfNeeded env spec (submitter run) =
          Inr ([RequestWorkerLease spec], (submitter run)\<lparr>worker_request_pending := True\<rparr>)) \<and>
     (worker_request_pending (submitter run) \<longrightarrow>
        (SubmitTask_on_complete env spec (submitter run) = Inr (evs1, s1) \<longrightarrow>
           worker_request_pending s1) \<and>
        (OnWorkerIdle env addr was_error (submitter run) = Inr (evs2, s2) \<longrightarrow>
           worker_request_pending s2) \<and>
        (PushNormalTask env addr client spec (submitter run) = Inr (evs3, s3) \<longrightarrow>
           worker_request_pending s3) \<and>
        (PushNormalTask_completion tid n addr env status reply (submitter run) = Inr (evs4, s4) \<longrightarrow>
           worker_request_pending s4)) \<and>
     \<not> worker_request_pending (HandleWorkerLeaseGranted_locked addr (submitter run))"
proof -
  note inv = reachable_lease_requests [OF assms]
  have a: "outstanding_lease_requests run \<le> 1 \<and>
     (outstanding_lease_requests run = 1 \<longleftrightarrow> worker_request_pending (submitter run))"
    using inv by (simp add: outstanding_lease_requests_def)
  have b: "(worker_request_pending (submitter run) \<longrightarrow>
        RequestNewWorkerIfNeeded env spec (submitter run) = Inr ([], submitter run)) \<and>
     (\<not> worker_request_pending (submitter run) \<and> ok (RequestWorkerLease_status env) \<longrightarrow>
        RequestNewWorkerIfNeeded env spec (submitter run) =
          Inr ([RequestWorkerLease spec], (submitter run)\<lparr>worker_request_pending := True\<rparr>))"
    by (simp add: RequestNewWorkerIfNeeded_def)
  have c: "\<not> worker_request_pending (HandleWorkerLeaseGranted_locked addr (submitter run))"
    by (simp add: HandleWorkerLeaseGranted_locked_def Let_def split: option.splits)
  from a b c SubmitTask_on_complete_step(2) [of env spec "submitter run" evs1 s1]
    OnWorkerIdle_step(2) [of env addr was_error "submitter run" evs2 s2]
    PushNormalTask_step(2) [of env addr client spec "submitter run" evs3 s3]
    PushNormalTask_completion_step [of tid n addr env status reply "submitter run" evs4 s4]
  show ?thesis by simp
qed

theorem at_most_one_outstanding_lease_request_witness:
  "dts_reachable run_new \<and> dts_reachable run_submitted \<and>
   outstanding_lease_requests run_new = 0 \<and> \<not> worker_request_pending (submitter run_new) \<and>
   ok (RequestWorkerLease_status all_ok) \<and>
   RequestNewWorkerIfNeeded all_ok task_plain (submitter run_new) =
     Inr ([RequestWorkerLease task_plain], (submitter run_new)\<lparr>worker_request_pending := True\<rparr>) \<and>
   outstanding_lease_requests run_submitted = 1 \<and> worker_request_pending (submitter run_submitted) \<and>
   RequestNewWorkerIfNeeded all_ok task_plain (submitter run_submitted) =
     Inr ([], submitter run_submitted) \<and>
   SubmitTask_on_complete all_ok task_plain (submitter run_submitted) =
     Inr ([], (submitter run_submitted)\<lparr>queued_tasks := [task_plain, task_plain]\<rparr>) \<and>
   OnWorkerIdle all_ok (''h'', 1) True (submitter run_submitted) =
     Inr ([ReturnWorker 1], submitter run_submitted) \<and>
   PushNormalTask all_ok (''h'', 1) 0 task_plain (submitter run_submitted) =
     Inr ([PushNormalTaskRpc (''h'', 1) task_plain], submitter run_submitted) \<and>
   PushNormalTask_completion 9 0 (''h'', 1) all_ok IOError [] (submitter run_submitted) =
     Inr ([ReturnWorker 1], submitter run_submitted) \<and>
   \<not> worker_request_pending (HandleWorkerLeaseGranted_locked (''h'', 1) (submitter run_submitted))"
proof -
  have n: "dts_reachable run_new"
    unfolding run_new_def submitter_new_def by (rule dts_new)
  have c: "SubmitTask_on_complete all_ok task_plain (submitter run_new) =
      Inr ([RequestWorkerLease task_plain], submitter run_submitted)"
    by (simp add: SubmitTask_on_complete_def RequestNewWorkerIfNeeded_def run_new_def
          run_submitted_def submitter_new_def CoreWorkerDirectTaskSubmitter_new_def all_ok_def
          ok_def)
  have "after_step run_new [RequestWorkerLease task_plain] (submitter run_submitted) = run_submitted"
    by (simp add: after_step_def run_new_def run_submitted_def)
  with dts_on_complete [OF n c] have r: "dts_reachable run_submitted" by simp
  have e: "SubmitTask_on_complete all_ok task_plain (submitter run_submitted) =
       Inr ([], (submitter run_submitted)\<lparr>queued_tasks := [task_plain, task_plain]\<rparr>)"
     "OnWorkerIdle all_ok (''h'', 1) True (submitter run_submitted) =
       Inr ([ReturnWorker 1], submitter run_submitted)"
     "PushNormalTask all_ok (''h'', 1) 0 task_plain (submitter run_submitted) =
       Inr ([PushNormalTaskRpc (''h'', 1) task_plain], submitter run_submitted)"
     "PushNormalTask_completion 9 0 (''h'', 1) all_ok IOError [] (submitter run_submitted) =
       Inr ([ReturnWorker 1], submitter run_submitted)"
    by (simp_all add: SubmitTask_on_complete_def RequestNewWorkerIfNeeded_def OnWorkerIdle_def
          PushNormalTask_def PushNormalTask_completion_def TreatTaskAsFailed_def
          run_submitted_def submitter_new_def CoreWorkerDirectTaskSubmitter_new_def all_ok_def
          ok_def)
  have k: "ok (RequestWorkerLease_status all_ok)"
    by (simp add: all_ok_def ok_def)
  have f: "\<not> worker_request_pending (submitter run_new)"
    by (simp add: run_new_def submitter_new_def CoreWorkerDirectTaskSubmitter_new_def)
  have g: "worker_request_pending (submitter run_submitted)"
    by (simp add: run_submitted_def)
  from at_most_one_outstanding_lease_request [OF n, of all_ok task_plain
      "[]" "submitter run_new" "(''h'', 1)" True "[]" "submitter run_new"
      0 "[]" "submitter run_new" 9 0 IOError "[]" "[]" "submitter run_new"] f k
  have first: "outstanding_lease_requests run_new = 0 \<and>
     RequestNewWorkerIfNeeded all_ok task_plain (submitter run_new) =
       Inr ([RequestWorkerLease task_plain], (submitter run_new)\<lparr>worker_request_pending := True\<rparr>)"
    by auto
  from first f g
    at_most_one_outstanding_lease_request [OF r, of all_ok task_plain
      "[]" "(submitter run_submitted)\<lparr>queued_tasks := [task_plain, task_plain]\<rparr>"
      "(''h'', 1)" True "[ReturnWorker 1]" "submitter run_submitted"
      0 "[PushNormalTaskRpc (''h'', 1) task_plain]" "submitter run_submitted"
      9 0 IOError "[]" "[ReturnWorker 1]" "submitter run_submitted"]
    n r e k
  show ?thesis by (simp only: simp_thms)
qed

subsection \<open>Treating a task as failed\<close>

lemma Put_notify_flags:
  "Put_notify object_id e rs (b, evs, heap) = (b', evs', heap') \<Longrightarrow> heap' r = Some g' \<Longrightarrow>
   \<exists>g. heap r = Some g \<and> gr_remove_after_get g' = gr_remove_after_get g"
proof (induction rs arbitrary: b evs heap)
  case Nil
  then show ?case by simp
next
  case (Cons r0 rs)
  show ?case
  proof (cases "heap r0")
    case None
    with Cons show ?thesis by simp
  next
    case (Some g0)
    with Cons.prems(1) obtain b1 where
      n: "Put_notify object_id e rs
            (b1, evs @ [SetCalled r0 object_id e], heap(r0 \<mapsto> GetRequest_Set object_id e g0)) =
          (b', evs', heap')"
      by simp
    from Cons.IH [OF n Cons.prems(2)] obtain g where
      "(heap(r0 \<mapsto> GetRequest_Set object_id e g0)) r = Some g"
      "gr_remove_after_get g' = gr_remove_after_get g" by blast
    with Some show ?thesis by (cases "r = r0") auto
  qed
qed

lemma Put_more_effects:
  assumes "Put object_id obj s = Inr (st, evs, s')"
  shows "request_heap s' r = Some g' \<Longrightarrow>
         \<exists>g. request_heap s r = Some g \<and> gr_remove_after_get g' = gr_remove_after_get g"
    and "objects s object_id = None \<Longrightarrow> st = OK"
    and "x \<noteq> object_id \<Longrightarrow> objects s' x = objects s x"
    and "objects s x = Some v \<Longrightarrow> objects s' x = Some v"
    and "store_in_plasma s' = store_in_plasma s"
    and "promoted_to_plasma s' \<subseteq> promoted_to_plasma s"
proof -
  let ?e = "RayObject_new (data obj) (metadata obj) True"
  obtain b' evs' heap' where n: "Put_notify object_id ?e
       (case object_get_requests s object_id of None \<Rightarrow> [] | Some rs \<Rightarrow> rs)
       (True, [], request_heap s) = (b', evs', heap')"
    by (cases "Put_notify object_id ?e
       (case object_get_requests s object_id of None \<Rightarrow> [] | Some rs \<Rightarrow> rs)
       (True, [], request_heap s)") auto
  have heap: "request_heap s' = request_heap s \<or> request_heap s' = heap'"
    using assms n
    by (auto simp: Put_def Let_def split: if_splits option.splits prod.splits)
  show "\<exists>g. request_heap s r = Some g \<and> gr_remove_after_get g' = gr_remove_after_get g"
    if "request_heap s' r = Some g'"
    using heap that Put_notify_flags [OF n, of r g'] by auto
  show "st = OK" if "objects s object_id = None"
    using assms that
    by (auto simp: Put_def Let_def split: if_splits option.splits prod.splits)
  show "objects s' x = objects s x" if "x \<noteq> object_id"
    using assms that
    by (auto simp: Put_def Let_def split: if_splits option.splits prod.splits)
  show "objects s' x = Some v" if "objects s x = Some v"
    using assms that
    by (auto simp: Put_def Let_def split: if_splits option.splits prod.splits)
  show "store_in_plasma s' = store_in_plasma s"
    using assms
    by (auto simp: Put_def Let_def split: if_splits option.splits prod.splits)
  show "promoted_to_plasma s' \<subseteq> promoted_to_plasma s"
    using assms
    by (auto simp: Put_def Let_def split: if_splits option.splits prod.splits)
qed

lemma Put_no_removing_waiter:
  assumes "Put object_id obj s = Inr (st, evs, s')" and "no_removing_waiter s x"
  shows "no_removing_waiter s' x"
  unfolding no_removing_waiter_def
proof (intro allI impI)
  fix rs r g'
  assume a: "object_get_requests s' x = Some rs" "r \<in> set rs" "request_heap s' r = Some g'"
  from Put_more_effects(1) [OF assms(1) a(3)] obtain g where
    g: "request_heap s r = Some g" "gr_remove_after_get g' = gr_remove_after_get g" by blast
  from a(1) Put_effect_on_store(1) [OF assms(1)] have "object_get_requests s x = Some rs" by simp
  with assms(2) a(2) g show "\<not> gr_remove_after_get g'"
    unfolding no_removing_waiter_def by blast
qed

lemma reachable_promoted:
  "ims_reachable s \<Longrightarrow> x \<in> promoted_to_plasma s \<Longrightarrow> store_in_plasma s \<noteq> None"
proof (induction rule: ims_reachable.induct)
  case (ims_new sip)
  then show ?case by (simp add: CoreWorkerMemoryStore_new_def)
next
  case (ims_Put s object_id obj st evs s')
  from Put_more_effects(5,6) [OF ims_Put.hyps(2)] ims_Put.IH ims_Put.prems
  show ?case by auto
next
  case (ims_GetAsync s object_id cb evs s')
  then show ?case by (auto simp: GetAsync_def split: option.splits)
next
  case (ims_GetOrPromoteToPlasma s object_id res s')
  then show ?case
    by (auto simp: GetOrPromoteToPlasma_def split: option.splits if_splits)
next
  case (ims_Get_begin s ids n rm res0 p s')
  from ims_Get_begin.hyps(2)
  have "promoted_to_plasma s' = promoted_to_plasma s \<and> store_in_plasma s' = store_in_plasma s"
    by (auto simp: Get_begin_def Let_def split: if_splits sum.splits)
  with ims_Get_begin.IH ims_Get_begin.prems show ?case by simp
next
  case (ims_Get_finish s r ids res res' s')
  from ims_Get_finish.hyps(2)
  have "promoted_to_plasma s' = promoted_to_plasma s \<and> store_in_plasma s' = store_in_plasma s"
    by (auto simp: Get_finish_def split: option.splits)
  with ims_Get_finish.IH ims_Get_finish.prems show ?case by simp
next
  case (ims_Delete s ids)
  have "promoted_to_plasma (Delete ids s) = promoted_to_plasma s \<and>
        store_in_plasma (Delete ids s) = store_in_plasma s"
    by (induction ids arbitrary: s) simp_all
  with ims_Delete.IH ims_Delete.prems show ?case by simp
qed

lemma Put_returns:
  assumes "ims_reachable s" and "IsDirectCallType object_id"
  shows "\<exists>st evs s'. Put object_id obj s = Inr (st, evs, s')"
proof -
  have "\<not> (object_id \<in> promoted_to_plasma s \<and> store_in_plasma s = None)"
    using reachable_promoted [OF assms(1)] by blast
  with assms(2) show ?thesis
    by (auto simp: Put_def Let_def split: option.splits prod.splits)
qed

lemma failure_object_copy [simp]:
  "RayObject_new (data (failure_object e)) (metadata (failure_object e)) True = failure_object e"
  by (simp add: RayObject_new_def failure_object_def)

lemma TreatTaskAsFailed_from_returns:
  "ims_reachable store \<Longrightarrow>
   \<exists>evs store'. TreatTaskAsFailed_from i tid n e store = Inr (evs, store') \<and> ims_reachable store'"
proof (induction n arbitrary: i store)
  case 0
  then show ?case by simp
next
  case (Suc n)
  have "IsDirectCallType (ForTaskReturn tid (Suc i) DIRECT)"
    by (simp add: IsDirectCallType_def ForTaskReturn_def)
  from Put_returns [OF Suc.prems this] obtain st evs1 store1 where
    p: "Put (ForTaskReturn tid (Suc i) DIRECT) (failure_object e) store = Inr (st, evs1, store1)"
    by blast
  from Suc.IH [OF ims_Put [OF Suc.prems p], of "Suc i"] p show ?case by auto
qed

lemma TreatTaskAsFailed_from_keeps:
  "TreatTaskAsFailed_from i tid n e store = Inr (evs, store') \<Longrightarrow>
   objects store x = Some v \<Longrightarrow> objects store' x = Some v"
proof (induction n arbitrary: i store evs)
  case 0
  then show ?case by simp
next
  case (Suc n)
  from Suc.prems(1) obtain st evs1 store1 evs2 where
    p: "Put (ForTaskReturn tid (Suc i) DIRECT) (failure_object e) store = Inr (st, evs1, store1)"
    and r: "TreatTaskAsFailed_from (Suc i) tid n e store1 = Inr (evs2, store')"
    by (auto split: sum.splits)
  from Suc.IH [OF r Put_more_effects(4) [OF p Suc.prems(2)]] show ?case .
qed

lemma TreatTaskAsFailed_from_writes:
  "TreatTaskAsFailed_from i tid n e store = Inr (evs, store') \<Longrightarrow> i < k \<Longrightarrow> k \<le> i + n \<Longrightarrow>
   objects store (ForTaskReturn tid k DIRECT) = None \<Longrightarrow>
   no_removing_waiter store (ForTaskReturn tid k DIRECT) \<Longrightarrow>
   objects store' (ForTaskReturn tid k DIRECT) = Some (failure_object e)"
proof (induction n arbitrary: i store evs)
  case 0
  then show ?case by simp
next
  case (Suc n)
  from Suc.prems(1) obtain st evs1 store1 evs2 where
    p: "Put (ForTaskReturn tid (Suc i) DIRECT) (failure_object e) store = Inr (st, evs1, store1)"
    and r: "TreatTaskAsFailed_from (Suc i) tid n e store1 = Inr (evs2, store')"
    by (auto split: sum.splits)
  show ?case
  proof (cases "k = Suc i")
    case True
    from Put_more_effects(2) [OF p] Suc.prems(4) True have "st = OK" by simp
    with p True have "Put (ForTaskReturn tid k DIRECT) (failure_object e) store = Inr (OK, evs1, store1)"
      by simp
    from Put_OK_stores [OF this Suc.prems(5)]
    have "objects store1 (ForTaskReturn tid k DIRECT) = Some (failure_object e)" .
    from TreatTaskAsFailed_from_keeps [OF r this] show ?thesis .
  next
    case False
    then have ne: "ForTaskReturn tid k DIRECT \<noteq> ForTaskReturn tid (Suc i) DIRECT"
      by (simp add: ForTaskReturn_def)
    from Put_more_effects(3) [OF p ne] Suc.prems(4)
    have none: "objects store1 (ForTaskReturn tid k DIRECT) = None" by simp
    from False Suc.prems(2,3) have "Suc i < k" "k \<le> Suc i + n" by simp_all
    from Suc.IH [OF r this none Put_no_removing_waiter [OF p Suc.prems(5)]] show ?thesis .
  qed
qed

lemma TreatTaskAsFailed_result:
  assumes "ims_reachable store"
  shows "\<exists>evs store'. TreatTaskAsFailed tid n e store = Inr (evs, store') \<and>
           (\<forall>x \<in> set evs. is_store_effect x) \<and> failure_objects_written tid n e store store'"
proof -
  from TreatTaskAsFailed_from_returns [OF assms, of 0 tid n e] obtain evs store' where
    t: "TreatTaskAsFailed_from 0 tid n e store = Inr (evs, store')" by blast
  have "failure_objects_written tid n e store store'"
    unfolding failure_objects_written_def
    using TreatTaskAsFailed_from_writes [OF t] TreatTaskAsFailed_from_keeps [OF t]
    by auto
  with t TreatTaskAsFailed_from_effects [OF t] show ?thesis
    by (auto simp: TreatTaskAsFailed_def)
qed


subsection \<open>Failure of a push\<close>

lemma OnWorkerIdle_after_error:
  assumes "ok (ReturnWorker_status env)" and "ok (RequestWorkerLease_status env)"
  shows "OnWorkerIdle env addr True s =
           Inr (ReturnWorker (snd addr) # lease_request_if_needed s, after_lease_request s)"
  using assms
  by (simp add: OnWorkerIdle_def RequestNewWorkerIfNeeded_def lease_request_if_needed_def
        after_lease_request_def)

lemma lease_request_if_needed_kind:
  "filter is_push (lease_request_if_needed s) = [] \<and>
   filter is_return_worker (lease_request_if_needed s) = []"
  by (simp add: lease_request_if_needed_def)

lemma after_lease_request_members:
  "queued_tasks (after_lease_request s) = queued_tasks s \<and>
   client_cache (after_lease_request s) = client_cache s \<and>
   in_memory_store (after_lease_request s) = in_memory_store s"
  by (simp add: after_lease_request_def)

text \<open>
  C5. When the RPC of \<^verbatim>\<open>PushNormalTask\<close> completes with a status that is not OK (and the
  lease client accepts the calls made), the completion first runs \<^verbatim>\<open>OnWorkerIdle\<close> with
  \<^verbatim>\<open>was_error = true\<close>, which returns the worker with
  \<^verbatim>\<open>ReturnWorker(addr.second)\<close>, pushes no task and leaves the queue as it is (it may
  ask for a new lease for the head of the queue), and then treats the task as failed:
  for each of the \<open>num_returns\<close> return ids a \<^verbatim>\<open>WORKER_DIED\<close> object is put into the
  store. The store is a reachable one, so none of these puts aborts.
\<close>

theorem push_completion_failure:
  assumes "\<not> ok status" and "ok (ReturnWorker_status env)"
    and "ok (RequestWorkerLease_status env)" and "ims_reachable (in_memory_store s)"
  shows "\<exists>evs_store store'.
     OnWorkerIdle env addr True s =
       Inr (ReturnWorker (snd addr) # lease_request_if_needed s, after_lease_request s) \<and>
     filter is_push (ReturnWorker (snd addr) # lease_request_if_needed s) = [] \<and>
     queued_tasks (after_lease_request s) = queued_tasks s \<and>
     TreatTaskAsFailed tid n WORKER_DIED (in_memory_store s) = Inr (evs_store, store') \<and>
     (\<forall>x \<in> set evs_store. is_store_effect x) \<and>
     failure_objects_written tid n WORKER_DIED (in_memory_store s) store' \<and>
     PushNormalTask_completion tid n addr env status reply s =
       Inr (ReturnWorker (snd addr) # lease_request_if_needed s @ evs_store,
            (after_lease_request s)\<lparr>in_memory_store := store'\<rparr>)"
proof -
  from TreatTaskAsFailed_result [OF assms(4), of tid n WORKER_DIED] obtain evs_store store' where
    t: "TreatTaskAsFailed tid n WORKER_DIED (in_memory_store s) = Inr (evs_store, store')"
    and e: "\<forall>x \<in> set evs_store. is_store_effect x"
    and w: "failure_objects_written tid n WORKER_DIED (in_memory_store s) store'"
    by blast
  note i = OnWorkerIdle_after_error [OF assms(2,3), of addr s]
  have "PushNormalTask_completion tid n addr env status reply s =
       Inr (ReturnWorker (snd addr) # lease_request_if_needed s @ evs_store,
            (after_lease_request s)\<lparr>in_memory_store := store'\<rparr>)"
    using assms(1) t by (simp add: PushNormalTask_completion_def i after_lease_request_members)
  with t e w i lease_request_if_needed_kind [of s] after_lease_request_members [of s]
  show ?thesis by simp
qed

theorem push_completion_failure_witness:
  "\<not> ok IOError \<and> ok (ReturnWorker_status all_ok) \<and> ok (RequestWorkerLease_status all_ok) \<and>
   ims_reachable (in_memory_store (submitter run_submitted)) \<and>
   OnWorkerIdle all_ok (''h'', 1) True (submitter run_submitted) =
     Inr ([ReturnWorker 1], submitter run_submitted) \<and>
   TreatTaskAsFailed 9 2 WORKER_DIED (in_memory_store (submitter run_submitted)) =
     Inr ([], store_failed_plain) \<and>
   failure_objects_written 9 2 WORKER_DIED (in_memory_store (submitter run_submitted))
     store_failed_plain \<and>
   PushNormalTask_completion 9 2 (''h'', 1) all_ok IOError [] (submitter run_submitted) =
     Inr ([ReturnWorker 1], (submitter run_submitted)\<lparr>in_memory_store := store_failed_plain\<rparr>)"
proof -
  have a: "\<not> ok IOError" "ok (ReturnWorker_status all_ok)" "ok (RequestWorkerLease_status all_ok)"
    by (simp_all add: ok_def all_ok_def)
  have st: "in_memory_store (submitter run_submitted) = CoreWorkerMemoryStore_new None"
    by (simp add: run_submitted_def submitter_new_def CoreWorkerDirectTaskSubmitter_new_def)
  have r: "ims_reachable (in_memory_store (submitter run_submitted))"
    unfolding st by (rule ims_new)
  have t: "TreatTaskAsFailed 9 2 WORKER_DIED (in_memory_store (submitter run_submitted)) =
     Inr ([], store_failed_plain)"
    unfolding st
    by (simp add: TreatTaskAsFailed_def numeral_2_eq_2 Put_def IsDirectCallType_def
          ForTaskReturn_def CoreWorkerMemoryStore_new_def store_failed_plain_def Let_def
          fun_upd_twist)
  have l: "lease_request_if_needed (submitter run_submitted) = []"
      "after_lease_request (submitter run_submitted) = submitter run_submitted"
    by (simp_all add: lease_request_if_needed_def after_lease_request_def run_submitted_def)
  from push_completion_failure [OF a r, of "(''h'', 1)" 9 2 "[]"] t l a r
  show ?thesis by auto
qed

lemma OnWorkerIdle_visible:
  assumes "OnWorkerIdle env addr was_error s = Inr (evs, s')"
  shows "filter is_return_worker evs \<noteq> [] \<or> filter is_push evs \<noteq> []"
    and "\<not> was_error \<Longrightarrow> queued_tasks s \<noteq> [] \<Longrightarrow>
         filter is_return_worker evs = [] \<and>
         filter is_push evs = [PushNormalTaskRpc addr (hd (queued_tasks s))]"
proof -
  from assms obtain evs1 s1 evs2 where
    first: "(if queued_tasks s = [] \<or> was_error
      then (if ok (ReturnWorker_status env) then Inr ([ReturnWorker (snd addr)], s)
            else Inl Check_ReturnWorker)
      else (case client_cache s addr of
              None \<Rightarrow> Inl Null_client
            | Some client \<Rightarrow>
                (case PushNormalTask env addr client (hd (queued_tasks s)) s of
                   Inl a \<Rightarrow> Inl a
                 | Inr (evs, s1) \<Rightarrow> Inr (evs, s1\<lparr>queued_tasks := tl (queued_tasks s1)\<rparr>)))) =
     Inr (evs1, s1)"
    and rest: "(if queued_tasks s1 \<noteq> [] then RequestNewWorkerIfNeeded env (hd (queued_tasks s1)) s1
          else Inr ([], s1)) = Inr (evs2, s')"
    and evs: "evs = evs1 @ evs2"
    by (rule OnWorkerIdle_parts)
  from rest have r: "filter is_push evs2 = [] \<and> filter is_return_worker evs2 = []"
    by (auto dest: RequestNewWorkerIfNeeded_step(4,5) split: if_splits)
  from first have
    f: "(queued_tasks s = [] \<or> was_error) \<and> evs1 = [ReturnWorker (snd addr)] \<or>
        \<not> (queued_tasks s = [] \<or> was_error) \<and>
        filter is_push evs1 = [PushNormalTaskRpc addr (hd (queued_tasks s))] \<and>
        filter is_return_worker evs1 = []"
    by (auto dest: PushNormalTask_step(5,6) split: if_splits option.splits sum.splits)
  from f r evs show "filter is_return_worker evs \<noteq> [] \<or> filter is_push evs \<noteq> []"
    by auto
  from f r evs show "filter is_return_worker evs = [] \<and>
         filter is_push evs = [PushNormalTaskRpc addr (hd (queued_tasks s))]"
    if "\<not> was_error" and "queued_tasks s \<noteq> []"
    using that by auto
qed

subsection \<open>Synchronous failure of a push\<close>

lemma Put_notify_no_callbacks:
  "Put_notify object_id e rs (b, evs, heap) = (b', evs', heap') \<Longrightarrow>
   \<forall>cb v. CallbackRun cb v \<notin> set evs \<Longrightarrow> \<forall>cb v. CallbackRun cb v \<notin> set evs'"
proof (induction rs arbitrary: b evs heap)
  case Nil
  then show ?case by simp
next
  case (Cons r rs)
  show ?case
  proof (cases "heap r")
    case None
    with Cons show ?thesis by simp
  next
    case (Some g)
    with Cons.prems(1) obtain b1 where
      n: "Put_notify object_id e rs
            (b1, evs @ [SetCalled r object_id e], heap(r \<mapsto> GetRequest_Set object_id e g)) =
          (b', evs', heap')"
      by simp
    have "\<forall>cb v. CallbackRun cb v \<notin> set (evs @ [SetCalled r object_id e])"
      using Cons.prems(2) by simp
    from Cons.IH [OF n this] show ?thesis .
  qed
qed

lemma Put_without_waiters:
  assumes "Put object_id obj s = Inr (st, evs, s')"
  shows "object_async_get_requests s object_id = None \<Longrightarrow> \<forall>cb v. CallbackRun cb v \<notin> set evs"
    and "object_async_get_requests s x = None \<Longrightarrow> object_async_get_requests s' x = None"
proof -
  let ?e = "RayObject_new (data obj) (metadata obj) True"
  obtain b' evs' heap' where n: "Put_notify object_id ?e
       (case object_get_requests s object_id of None \<Rightarrow> [] | Some rs \<Rightarrow> rs)
       (True, [], request_heap s) = (b', evs', heap')"
    by (cases "Put_notify object_id ?e
       (case object_get_requests s object_id of None \<Rightarrow> [] | Some rs \<Rightarrow> rs)
       (True, [], request_heap s)") auto
  from Put_notify_no_callbacks [OF n] have c: "\<forall>cb v. CallbackRun cb v \<notin> set evs'" by simp
  show "\<forall>cb v. CallbackRun cb v \<notin> set evs" if "object_async_get_requests s object_id = None"
    using assms n c that
    by (auto simp: Put_def Let_def split: if_splits option.splits prod.splits)
  show "object_async_get_requests s' x = None" if "object_async_get_requests s x = None"
    using assms that
    by (auto simp: Put_def Let_def split: if_splits option.splits prod.splits)
qed

lemma run_callbacks_holding_mu_none:
  "\<forall>cb v. CallbackRun cb v \<notin> set evs \<Longrightarrow> run_callbacks_holding_mu evs r = Inr r"
proof (induction evs)
  case Nil
  then show ?case by simp
next
  case (Cons e evs)
  then show ?case by (cases e) auto
qed

lemma TreatTaskAsFailed_holding_mu_plain:
  "\<forall>k. i < k \<and> k \<le> i + n \<longrightarrow>
       object_async_get_requests (in_memory_store s) (ForTaskReturn tid k DIRECT) = None \<Longrightarrow>
   TreatTaskAsFailed_holding_mu i tid n e s =
     (case TreatTaskAsFailed_from i tid n e (in_memory_store s) of
        Inl a \<Rightarrow> Inl a
      | Inr (evs, store') \<Rightarrow> Inr (evs, s\<lparr>in_memory_store := store'\<rparr>))"
proof (induction n arbitrary: i s)
  case 0
  then show ?case by simp
next
  case (Suc n)
  show ?case
  proof (cases "Put (ForTaskReturn tid (Suc i) DIRECT) (failure_object e) (in_memory_store s)")
    case (Inl a)
    then show ?thesis by simp
  next
    case (Inr res)
    then obtain st evs1 store1 where
      p: "Put (ForTaskReturn tid (Suc i) DIRECT) (failure_object e) (in_memory_store s) =
            Inr (st, evs1, store1)"
      by (cases res) auto
    from Suc.prems have "object_async_get_requests (in_memory_store s)
        (ForTaskReturn tid (Suc i) DIRECT) = None" by simp
    from run_callbacks_holding_mu_none [OF Put_without_waiters(1) [OF p this]]
    have c: "run_callbacks_holding_mu evs1 (resolver s) = Inr (resolver s)" .
    have "\<forall>k. Suc i < k \<and> k \<le> Suc i + n \<longrightarrow>
       object_async_get_requests (in_memory_store (s\<lparr>in_memory_store := store1\<rparr>))
         (ForTaskReturn tid k DIRECT) = None"
      using Suc.prems Put_without_waiters(2) [OF p] by simp
    from Suc.IH [OF this] p c show ?thesis
      by (simp split: sum.splits)
  qed
qed

text \<open>
  When no callback waits for a return id of the task, the synchronous failure of a push
  does what is expected of it: a \<^verbatim>\<open>WORKER_DIED\<close> object is put for each return id,
  apart from the store the submitter is unchanged, and besides the push itself there are
  only effects of the store, so no worker is returned, no other task is pushed and no
  lease is requested (\<^verbatim>\<open>OnWorkerIdle\<close>, which always returns a worker or pushes a task,
  is not run).
\<close>

lemma push_synchronous_failure_without_waiters:
  assumes "\<not> ok (PushNormalTask_status env)" and "ims_reachable (in_memory_store s)"
    and "\<forall>k. 0 < k \<and> k \<le> num_returns task \<longrightarrow>
           object_async_get_requests (in_memory_store s)
             (ForTaskReturn (task_id task) k DIRECT) = None"
  shows "\<exists>evs_store store'.
     TreatTaskAsFailed (task_id task) (num_returns task) WORKER_DIED (in_memory_store s) =
       Inr (evs_store, store') \<and>
     failure_objects_written (task_id task) (num_returns task) WORKER_DIED
       (in_memory_store s) store' \<and>
     PushNormalTask env addr client task s =
       Inr (PushNormalTaskRpc addr task # evs_store, s\<lparr>in_memory_store := store'\<rparr>) \<and>
     filter is_return_worker (PushNormalTaskRpc addr task # evs_store) = [] \<and>
     filter is_push evs_store = [] \<and> filter is_lease_request evs_store = []"
proof -
  from TreatTaskAsFailed_result [OF assms(2), of "task_id task" "num_returns task" WORKER_DIED]
  obtain evs_store store' where
    t: "TreatTaskAsFailed (task_id task) (num_returns task) WORKER_DIED (in_memory_store s) =
          Inr (evs_store, store')"
    and e: "\<forall>x \<in> set evs_store. is_store_effect x"
    and w: "failure_objects_written (task_id task) (num_returns task) WORKER_DIED
              (in_memory_store s) store'"
    by blast
  have "TreatTaskAsFailed_holding_mu 0 (task_id task) (num_returns task) WORKER_DIED s =
          Inr (evs_store, s\<lparr>in_memory_store := store'\<rparr>)"
    using TreatTaskAsFailed_holding_mu_plain [of 0 "num_returns task" s "task_id task" WORKER_DIED]
      assms(3) t
    by (simp add: TreatTaskAsFailed_def)
  then have p: "PushNormalTask env addr client task s =
       Inr (PushNormalTaskRpc addr task # evs_store, s\<lparr>in_memory_store := store'\<rparr>)"
    using assms(1) by (simp add: PushNormalTask_def)
  from t w p store_effect_filters [OF e]
  show ?thesis by (intro exI [of _ evs_store] exI [of _ store']) simp
qed

text \<open>
  C10 (the code departs from it). A task that depends on the first return id of
  \<open>task_plain\<close> has been submitted, so the callback of the resolver waits in the store
  for that id; \<open>task_plain\<close> is queued and a worker has been leased. \<^verbatim>\<open>OnWorkerIdle\<close>
  locks \<^verbatim>\<open>mu_\<close> and pushes \<open>task_plain\<close>, and the stub's call returns a status that
  is not OK. The first \<^verbatim>\<open>Put\<close> of a \<^verbatim>\<open>WORKER_DIED\<close> object returns OK and runs the
  waiting callback, which finds its task complete and calls \<^verbatim>\<open>on_complete\<close>; that
  locks \<^verbatim>\<open>mu_\<close>, which the thread holds. The thread never returns: the second return
  id is never written, where C10 has a failure object written for each return id.
\<close>

theorem push_synchronous_failure_deadlock:
  "IsDirectCallType (ForTaskReturn (task_id task_plain) 1 DIRECT) \<and>
   num_returns task_plain = 2 \<and>
   Put (ForTaskReturn (task_id task_plain) 1 DIRECT) (failure_object WORKER_DIED)
       (in_memory_store submitter_dependent) =
     Inr (OK, [CallbackRun (ResolverCallback 0 (ObjectID DIRECT 9 1)) (failure_object WORKER_DIED)],
          store_first_failed) \<and>
   resolver_callback 0 (ObjectID DIRECT 9 1) (failure_object WORKER_DIED)
       (resolver submitter_dependent) =
     Inr (True, resolver_dependent_complete) \<and>
   objects store_first_failed (ForTaskReturn (task_id task_plain) 2 DIRECT) = None \<and>
   PushNormalTask push_fails (''h'', 1) 0 task_plain submitter_dependent = Inl Deadlock_mu \<and>
   OnWorkerIdle push_fails (''h'', 1) False submitter_dependent = Inl Deadlock_mu"
proof -
  have p: "Put (ObjectID DIRECT 9 (Suc 0)) (failure_object WORKER_DIED)
       (in_memory_store submitter_dependent) =
     Inr (OK, [CallbackRun (ResolverCallback 0 (ObjectID DIRECT 9 1)) (failure_object WORKER_DIED)],
          store_first_failed)"
    by (simp add: Put_def IsDirectCallType_def submitter_dependent_def store_dependent_def
          store_first_failed_def CoreWorkerMemoryStore_new_def Let_def)
  have c: "resolver_callback 0 (ObjectID DIRECT 9 (Suc 0)) (failure_object WORKER_DIED)
       (resolver submitter_dependent) =
     Inr (True, resolver_dependent_complete)"
    by (simp add: resolver_callback_def submitter_dependent_def resolver_dependent_def
          resolver_dependent_complete_def task_dependent_def task_dependent_inlined_def
          DoInlineObjectValue_def inline_arg_def IsInPlasmaError_def HasData_def HasMetadata_def
          failure_object_def RayObject_new_def error_metadata_def Let_def)
  have t: "TreatTaskAsFailed_holding_mu 0 9 (Suc (Suc 0)) WORKER_DIED submitter_dependent =
             Inl Deadlock_mu"
    by (simp add: ForTaskReturn_def p c)
  have push: "PushNormalTask push_fails (''h'', 1) 0 task_plain submitter_dependent =
                Inl Deadlock_mu"
    using t
    by (simp add: PushNormalTask_def push_fails_def all_ok_def ok_def task_plain_def
          numeral_2_eq_2)
  have idle: "OnWorkerIdle push_fails (''h'', 1) False submitter_dependent = Inl Deadlock_mu"
    using push by (simp add: OnWorkerIdle_def submitter_dependent_def)
  have rest: "objects store_first_failed (ObjectID DIRECT 9 2) = None"
    by (simp add: store_first_failed_def store_dependent_def CoreWorkerMemoryStore_new_def)
  from p c push idle rest show ?thesis
    by (simp add: ForTaskReturn_def IsDirectCallType_def task_plain_def)
qed

end
